theory Spec2Isabelle
  imports Main
begin

section \<open>Errors\<close>

text \<open>
  Go's \<^verbatim>\<open>error\<close> values as far as \<^verbatim>\<open>errors.Is\<close> tells them apart: the package variable
  \<^verbatim>\<open>errResultNotFound\<close>, any other plain error (named by its message), and an error
  that wraps another one (\<^verbatim>\<open>fmt.Errorf("...: %w", e)\<close>, whose \<^verbatim>\<open>Unwrap\<close> gives \<^verbatim>\<open>e\<close>).
  A nil error is \<open>None\<close> of \<open>error option\<close>. \<open>errors_Is\<close> follows the chain of
  \<^verbatim>\<open>Unwrap\<close> as \<^verbatim>\<open>errors.Is\<close> does; error types with an \<^verbatim>\<open>Is\<close> method of their own are
  outside this datatype.
\<close>

datatype error = errResultNotFound | ErrNew string | ErrWrap string error

fun errors_Is :: "error \<Rightarrow> error \<Rightarrow> bool" where
  "errors_Is (ErrWrap s e) target = (ErrWrap s e = target \<or> errors_Is e target)"
| "errors_Is e target = (e = target)"

section \<open>Entries and the group\<close>

text \<open>
  An \<^verbatim>\<open>*ent\<close> is an address into the list \<open>objs\<close> of all entries ever allocated;
  \<^verbatim>\<open>new(ent)\<close> appends to that list. The field \<open>wg\<close> is the counter of the entry's
  \<^verbatim>\<open>sync.WaitGroup\<close>. The registry \<open>m\<close> is the map \<^verbatim>\<open>g.m\<close>; a nil map and an empty
  map are both \<open>Map.empty\<close>. The parameter \<open>z\<close> of the functions below is the zero value
  of the value type \<^verbatim>\<open>V\<close>. The field \<open>nan\<close> belongs to the key type \<^verbatim>\<open>K\<close> and never
  changes: it holds of the keys that \<^verbatim>\<open>==\<close> does not find equal to themselves (the NaN
  of a floating-point key type; no key of an integer or string type). Go's map finds no
  entry under such a key, so each of its occurrences stands for a key of its own here;
  and \<^verbatim>\<open>delete\<close> removes nothing for it (\<open>map_delete\<close>). A loader is a function from the key list it is passed to the
  mapping and the error it returns: it is taken to return, and to do nothing else to the
  group; the context argument is passed through by the source and is left out.
\<close>

type_synonym addr = nat

record ('k, 'v) ent =
  wg :: nat
  key :: 'k
  val :: 'v
  err :: "error option"

record ('k, 'v) Group =
  objs :: "('k, 'v) ent list"
  m :: "'k \<rightharpoonup> addr"
  nan :: "'k \<Rightarrow> bool"

type_synonym ('k, 'v) Loader = "'k list \<Rightarrow> ('k \<rightharpoonup> 'v) \<times> error option"

definition new_ent :: "'v \<Rightarrow> 'k \<Rightarrow> ('k, 'v) ent" where
  "new_ent z k = \<lparr>wg = 1, key = k, val = z, err = None\<rparr>"

text \<open>
  The body of the first critical section of \<^verbatim>\<open>Do\<close> (the loop over \<^verbatim>\<open>keys\<close>), with the
  two slices as accumulators.
\<close>

fun Do_register ::
  "'v \<Rightarrow> 'k list \<Rightarrow> addr list \<Rightarrow> addr list \<Rightarrow> ('k, 'v) Group
     \<Rightarrow> addr list \<times> addr list \<times> ('k, 'v) Group" where
  "Do_register z [] ents missEnts g = (ents, missEnts, g)"
| "Do_register z (k # ks) ents missEnts g =
     (case m g k of
        Some e \<Rightarrow> Do_register z ks (ents @ [e]) missEnts g
      | None \<Rightarrow>
          (let e = length (objs g)
           in Do_register z ks (ents @ [e]) (missEnts @ [e])
                (g\<lparr>objs := objs g @ [new_ent z k], m := (m g)(k \<mapsto> e)\<rparr>)))"

text \<open>
  \<^verbatim>\<open>wg.Done()\<close> panics on a counter that is already zero: \<open>None\<close>. \<^verbatim>\<open>setCallResult\<close> and
  \<^verbatim>\<open>setCallErr\<close> write one field, release the waiters and call \<^verbatim>\<open>delete(g.m, e.key)\<close>,
  which removes the key from the registry unless the key is not equal to itself.
\<close>

definition map_delete :: "('k, 'v) Group \<Rightarrow> 'k \<Rightarrow> ('k \<rightharpoonup> addr)" where
  "map_delete g k = (if nan g k then m g else (m g)(k := None))"

definition wg_Done :: "('k, 'v) ent \<Rightarrow> ('k, 'v) ent option" where
  "wg_Done x = (if wg x = 0 then None else Some (x\<lparr>wg := wg x - 1\<rparr>))"

definition setCallResult :: "('k, 'v) Group \<Rightarrow> addr \<Rightarrow> 'v \<Rightarrow> ('k, 'v) Group option" where
  "setCallResult g e v =
     (case wg_Done ((objs g ! e)\<lparr>val := v\<rparr>) of
        None \<Rightarrow> None
      | Some x \<Rightarrow> Some (g\<lparr>objs := (objs g)[e := x], m := map_delete g (key x)\<rparr>))"

definition setCallErr :: "('k, 'v) Group \<Rightarrow> addr \<Rightarrow> error \<Rightarrow> ('k, 'v) Group option" where
  "setCallErr g e er =
     (case wg_Done ((objs g ! e)\<lparr>err := Some er\<rparr>) of
        None \<Rightarrow> None
      | Some x \<Rightarrow> Some (g\<lparr>objs := (objs g)[e := x], m := map_delete g (key x)\<rparr>))"

text \<open>
  \<^verbatim>\<open>doLoad\<close>: the keys of the batch, the loader call, and the critical section that
  completes every entry of the batch (\<open>doLoad_finish\<close>, from the loader's outcome).
\<close>

definition doLoad_keys :: "('k, 'v) Group \<Rightarrow> addr list \<Rightarrow> 'k list" where
  "doLoad_keys g ents = map (\<lambda>e. key (objs g ! e)) ents"

fun doLoad_err :: "('k, 'v) Group \<Rightarrow> addr list \<Rightarrow> error \<Rightarrow> ('k, 'v) Group option" where
  "doLoad_err g [] er = Some g"
| "doLoad_err g (e # es) er =
     (case setCallErr g e er of None \<Rightarrow> None | Some g' \<Rightarrow> doLoad_err g' es er)"

fun doLoad_vals :: "('k, 'v) Group \<Rightarrow> addr list \<Rightarrow> ('k \<rightharpoonup> 'v) \<Rightarrow> ('k, 'v) Group option" where
  "doLoad_vals g [] vals = Some g"
| "doLoad_vals g (e # es) vals =
     (case (case vals (key (objs g ! e)) of
              Some v \<Rightarrow> setCallResult g e v
            | None \<Rightarrow> setCallErr g e errResultNotFound) of
        None \<Rightarrow> None
      | Some g' \<Rightarrow> doLoad_vals g' es vals)"

definition doLoad_finish ::
  "('k, 'v) Group \<Rightarrow> addr list \<Rightarrow> ('k \<rightharpoonup> 'v) \<times> error option \<Rightarrow> ('k, 'v) Group option" where
  "doLoad_finish g ents r =
     (case snd r of Some er \<Rightarrow> doLoad_err g ents er | None \<Rightarrow> doLoad_vals g ents (fst r))"

definition doLoad :: "('k, 'v) Group \<Rightarrow> addr list \<Rightarrow> ('k, 'v) Loader \<Rightarrow> ('k, 'v) Group option" where
  "doLoad g ents load = doLoad_finish g ents (load (doLoad_keys g ents))"

text \<open>
  One iteration of the wait loop of \<^verbatim>\<open>Do\<close> on entry \<open>e\<close>: \<^verbatim>\<open>e.wg.Wait()\<close> blocks while
  the counter is not zero; then the entry is skipped, fails the call, or is put in the
  result. \<open>Do_collect\<close> is the whole loop on a group that does not change meanwhile, and
  \<open>Do\<close> is a call that runs alone, from registration to return, with the key lists its
  loader was passed.
\<close>

datatype ('k, 'v) visit = Wait_blocks | Skip | Fail error | Put 'k 'v

definition Do_visit :: "('k, 'v) Group \<Rightarrow> addr \<Rightarrow> ('k, 'v) visit" where
  "Do_visit g e =
     (let x = objs g ! e
      in if wg x \<noteq> 0 then Wait_blocks
         else (case err x of
                 Some er \<Rightarrow> if errors_Is er errResultNotFound then Skip else Fail er
               | None \<Rightarrow> Put (key x) (val x)))"

datatype ('k, 'v) outcome = Returns "error + ('k \<rightharpoonup> 'v)" | Blocks | Panics

fun Do_collect :: "('k, 'v) Group \<Rightarrow> addr list \<Rightarrow> ('k \<rightharpoonup> 'v) \<Rightarrow> ('k, 'v) outcome" where
  "Do_collect g [] result = Returns (Inr result)"
| "Do_collect g (e # es) result =
     (case Do_visit g e of
        Wait_blocks \<Rightarrow> Blocks
      | Skip \<Rightarrow> Do_collect g es result
      | Fail er \<Rightarrow> Returns (Inl er)
      | Put k v \<Rightarrow> Do_collect g es (result(k \<mapsto> v)))"

definition Do ::
  "'v \<Rightarrow> ('k, 'v) Group \<Rightarrow> 'k list \<Rightarrow> ('k, 'v) Loader
     \<Rightarrow> ('k, 'v) outcome \<times> 'k list list \<times> ('k, 'v) Group" where
  "Do z g keys load =
     (case Do_register z keys [] [] g of
        (ents, missEnts, g1) \<Rightarrow>
          if missEnts \<noteq> [] then
            (case doLoad g1 missEnts load of
               None \<Rightarrow> (Panics, [doLoad_keys g1 missEnts], g1)
             | Some g2 \<Rightarrow> (Do_collect g2 ents Map.empty, [doLoad_keys g1 missEnts], g2))
          else (Do_collect g1 ents Map.empty, [], g1))"

section \<open>Concurrent calls\<close>

text \<open>
  Calls of \<^verbatim>\<open>Do\<close> on one group interleave. A call is a frame with its local variables, the
  log \<open>loads\<close> of the key lists its loader was passed, and a program counter: before the
  first critical section, before the loader call, between the loader's return and the second
  critical section, in the wait loop (\<open>rest\<close> holds the entries not yet visited), returned
  with an error or a mapping, or panicked. A critical section is one step, since the mutex
  keeps the others out of the group; the loader call and each iteration of the wait loop
  are one step each. A wait on an entry that is not completed leaves the call where it is.
  A schedule is a list of actions, a new call or a step of call \<open>t\<close>; the states of the
  program are the states \<open>exec z acts (init nk)\<close>, for the key type's \<open>nk\<close>.
\<close>

datatype ('k, 'v) pc =
  AtLock | AtLoad | AtFanout "('k \<rightharpoonup> 'v) \<times> error option" | AtWait
  | Returned "error + ('k \<rightharpoonup> 'v)" | Panicked

record ('k, 'v) call =
  keys :: "'k list"
  load :: "('k, 'v) Loader"
  ents :: "addr list"
  missEnts :: "addr list"
  rest :: "addr list"
  result :: "'k \<rightharpoonup> 'v"
  loads :: "'k list list"
  pc :: "('k, 'v) pc"

definition new_call :: "'k list \<Rightarrow> ('k, 'v) Loader \<Rightarrow> ('k, 'v) call" where
  "new_call ks ld =
     \<lparr>keys = ks, load = ld, ents = [], missEnts = [], rest = [], result = Map.empty,
      loads = [], pc = AtLock\<rparr>"

fun Do_step :: "'v \<Rightarrow> ('k, 'v) Group \<Rightarrow> ('k, 'v) call \<Rightarrow> ('k, 'v) Group \<times> ('k, 'v) call" where
  "Do_step z g c =
     (case pc c of
        AtLock \<Rightarrow>
          (case Do_register z (keys c) [] [] g of
             (es, ms, g') \<Rightarrow> (g', c\<lparr>ents := es, missEnts := ms, pc := AtLoad\<rparr>))
      | AtLoad \<Rightarrow>
          if missEnts c \<noteq> [] then
            (let ks = doLoad_keys g (missEnts c)
             in (g, c\<lparr>loads := loads c @ [ks], pc := AtFanout (load c ks)\<rparr>))
          else (g, c\<lparr>rest := ents c, result := Map.empty, pc := AtWait\<rparr>)
      | AtFanout r \<Rightarrow>
          (case doLoad_finish g (missEnts c) r of
             None \<Rightarrow> (g, c\<lparr>pc := Panicked\<rparr>)
           | Some g' \<Rightarrow> (g', c\<lparr>rest := ents c, result := Map.empty, pc := AtWait\<rparr>))
      | AtWait \<Rightarrow>
          (case rest c of
             [] \<Rightarrow> (g, c\<lparr>pc := Returned (Inr (result c))\<rparr>)
           | e # es \<Rightarrow>
               (case Do_visit g e of
                  Wait_blocks \<Rightarrow> (g, c)
                | Skip \<Rightarrow> (g, c\<lparr>rest := es\<rparr>)
                | Fail er \<Rightarrow> (g, c\<lparr>pc := Returned (Inl er)\<rparr>)
                | Put k v \<Rightarrow> (g, c\<lparr>rest := es, result := (result c)(k \<mapsto> v)\<rparr>)))
      | Returned r \<Rightarrow> (g, c)
      | Panicked \<Rightarrow> (g, c))"

record ('k, 'v) sys =
  grp :: "('k, 'v) Group"
  calls :: "('k, 'v) call list"

datatype ('k, 'v) action = Call "'k list" "('k, 'v) Loader" | Step nat

fun act :: "'v \<Rightarrow> ('k, 'v) action \<Rightarrow> ('k, 'v) sys \<Rightarrow> ('k, 'v) sys" where
  "act z (Call ks ld) s = s\<lparr>calls := calls s @ [new_call ks ld]\<rparr>"
| "act z (Step t) s =
     (if t < length (calls s) then
        (case Do_step z (grp s) (calls s ! t) of
           (g', c') \<Rightarrow> s\<lparr>grp := g', calls := (calls s)[t := c']\<rparr>)
      else s)"

fun exec :: "'v \<Rightarrow> ('k, 'v) action list \<Rightarrow> ('k, 'v) sys \<Rightarrow> ('k, 'v) sys" where
  "exec z [] s = s"
| "exec z (a # as) s = exec z as (act z a s)"

definition init :: "('k \<Rightarrow> bool) \<Rightarrow> ('k, 'v) sys" where
  "init nk = \<lparr>grp = \<lparr>objs = [], m = Map.empty, nan = nk\<rparr>, calls = []\<rparr>"

section \<open>Invariants\<close>

text \<open>
  The group between two critical sections: a registered key maps to an entry of that key,
  which is not completed unless the key is not equal to itself; and an entry that is not
  completed is as registration left it and is the one registered for its key. \<open>reg\<close> is
  \<open>Do_register\<close> without the accumulators.
\<close>

definition ginv :: "'v \<Rightarrow> ('k, 'v) Group \<Rightarrow> bool" where
  "ginv z g \<longleftrightarrow>
     (\<forall>k a. m g k = Some a \<longrightarrow>
        a < length (objs g) \<and> key (objs g ! a) = k \<and> (\<not> nan g k \<longrightarrow> wg (objs g ! a) \<noteq> 0)) \<and>
     (\<forall>a < length (objs g). wg (objs g ! a) \<noteq> 0 \<longrightarrow>
        m g (key (objs g ! a)) = Some a \<and> objs g ! a = new_ent z (key (objs g ! a)))"

fun reg :: "'v \<Rightarrow> 'k list \<Rightarrow> ('k, 'v) Group \<Rightarrow> addr list \<times> addr list \<times> ('k, 'v) Group" where
  "reg z [] g = ([], [], g)"
| "reg z (k # ks) g =
     (case m g k of
        Some e \<Rightarrow> (case reg z ks g of (E, M, g') \<Rightarrow> (e # E, M, g'))
      | None \<Rightarrow>
          (case reg z ks (g\<lparr>objs := objs g @ [new_ent z k], m := (m g)(k \<mapsto> length (objs g))\<rparr>) of
             (E, M, g') \<Rightarrow> (length (objs g) # E, length (objs g) # M, g')))"

text \<open>
  What the second critical section makes of the entry of key \<open>k\<close>, from the loader's
  outcome \<open>r\<close>, and what it makes of the group (\<open>fan_post\<close>).
\<close>

definition fanned :: "'v \<Rightarrow> ('k \<rightharpoonup> 'v) \<times> error option \<Rightarrow> 'k \<Rightarrow> ('k, 'v) ent" where
  "fanned z r k =
     (case snd r of
        Some er \<Rightarrow> \<lparr>wg = 0, key = k, val = z, err = Some er\<rparr>
      | None \<Rightarrow>
          (case fst r k of
             Some v \<Rightarrow> \<lparr>wg = 0, key = k, val = v, err = None\<rparr>
           | None \<Rightarrow> \<lparr>wg = 0, key = k, val = z, err = Some errResultNotFound\<rparr>))"

definition fan1 ::
  "('k \<rightharpoonup> 'v) \<times> error option \<Rightarrow> ('k, 'v) Group \<Rightarrow> addr \<Rightarrow> ('k, 'v) Group option" where
  "fan1 r g e =
     (case snd r of
        Some er \<Rightarrow> setCallErr g e er
      | None \<Rightarrow>
          (case fst r (key (objs g ! e)) of
             Some v \<Rightarrow> setCallResult g e v
           | None \<Rightarrow> setCallErr g e errResultNotFound))"

definition fan_post ::
  "'v \<Rightarrow> ('k \<rightharpoonup> 'v) \<times> error option \<Rightarrow> addr list \<Rightarrow> ('k, 'v) Group \<Rightarrow> ('k, 'v) Group \<Rightarrow> bool" where
  "fan_post z r ms g g' \<longleftrightarrow>
     length (objs g') = length (objs g) \<and>
     (\<forall>b < length (objs g).
        objs g' ! b = (if b \<in> set ms then fanned z r (key (objs g ! b)) else objs g ! b)) \<and>
     (\<forall>k. m g' k =
        (if k \<in> (\<lambda>b. key (objs g ! b)) ` set ms \<and> \<not> nan g k then None else m g k)) \<and>
     nan g' = nan g"

text \<open>
  A call owns the entries it registered from its registration to its second critical
  section, and is past it afterwards. \<open>ev\<close> relates a group to a later one: entries keep
  their address and key, and a completed entry never changes. \<open>cinv\<close> is what holds of
  every call, \<open>sinv\<close> of the whole state: the batches of two calls are disjoint and
  every entry is in the batch of some call.
\<close>

definition owning :: "('k, 'v) call \<Rightarrow> bool" where
  "owning c = (case pc c of AtLoad \<Rightarrow> True | AtFanout r \<Rightarrow> True | _ \<Rightarrow> False)"

definition past :: "('k, 'v) call \<Rightarrow> bool" where
  "past c = (case pc c of AtWait \<Rightarrow> True | Returned r \<Rightarrow> True | _ \<Rightarrow> False)"

definition ev :: "('k, 'v) Group \<Rightarrow> ('k, 'v) Group \<Rightarrow> bool" where
  "ev g g' \<longleftrightarrow>
     length (objs g) \<le> length (objs g') \<and>
     (\<forall>a < length (objs g).
        key (objs g' ! a) = key (objs g ! a) \<and>
        (wg (objs g ! a) = 0 \<longrightarrow> objs g' ! a = objs g ! a))"

definition cinv :: "'v \<Rightarrow> ('k, 'v) Group \<Rightarrow> ('k, 'v) call \<Rightarrow> bool" where
  "cinv z g c \<longleftrightarrow>
     pc c \<noteq> Panicked \<and>
     (pc c = AtLock \<longrightarrow> ents c = [] \<and> missEnts c = [] \<and> loads c = []) \<and>
     (pc c \<noteq> AtLock \<longrightarrow> doLoad_keys g (ents c) = keys c) \<and>
     (\<forall>a \<in> set (ents c). a < length (objs g)) \<and>
     set (missEnts c) \<subseteq> set (ents c) \<and> distinct (missEnts c) \<and>
     inj_on (\<lambda>a. key (objs g ! a)) (set (ents c)) \<and>
     (owning c \<longrightarrow> (\<forall>a \<in> set (missEnts c). wg (objs g ! a) \<noteq> 0)) \<and>
     (pc c = AtLoad \<longrightarrow> loads c = []) \<and>
     (\<forall>r. pc c = AtFanout r \<longrightarrow>
        missEnts c \<noteq> [] \<and> loads c = [doLoad_keys g (missEnts c)] \<and>
        r = load c (doLoad_keys g (missEnts c))) \<and>
     (past c \<longrightarrow>
        loads c = (if missEnts c = [] then [] else [doLoad_keys g (missEnts c)]) \<and>
        (\<forall>a \<in> set (missEnts c).
           objs g ! a = fanned z (load c (doLoad_keys g (missEnts c))) (key (objs g ! a)))) \<and>
     (past c \<longrightarrow>
        (\<exists>pre. ents c = pre @ rest c \<and>
           Do_collect g pre Map.empty = Returns (Inr (result c)))) \<and>
     (\<forall>res. pc c = Returned (Inr res) \<longrightarrow> rest c = [] \<and> res = result c) \<and>
     (\<forall>e. pc c = Returned (Inl e) \<longrightarrow> rest c \<noteq> [] \<and> Do_visit g (hd (rest c)) = Fail e)"

definition sinv :: "'v \<Rightarrow> ('k, 'v) sys \<Rightarrow> bool" where
  "sinv z s \<longleftrightarrow>
     ginv z (grp s) \<and>
     (\<forall>i < length (calls s). cinv z (grp s) (calls s ! i)) \<and>
     (\<forall>i < length (calls s). \<forall>j < length (calls s). i \<noteq> j \<longrightarrow>
        set (missEnts (calls s ! i)) \<inter> set (missEnts (calls s ! j)) = {}) \<and>
     (\<forall>a < length (objs (grp s)).
        \<exists>i < length (calls s). a \<in> set (missEnts (calls s ! i)))"

section \<open>Runs and progress\<close>

text \<open>
  The state after a schedule, from the idle group with no call; \<open>todo\<close> bounds the steps
  a call still takes before it returns.
\<close>

definition run :: "('k \<Rightarrow> bool) \<Rightarrow> 'v \<Rightarrow> ('k, 'v) action list \<Rightarrow> ('k, 'v) sys" where
  "run nk z acts = exec z acts (init nk)"

definition todo :: "('k, 'v) call \<Rightarrow> nat" where
  "todo c =
     (case pc c of
        AtLock \<Rightarrow> length (keys c) + 4
      | AtLoad \<Rightarrow> length (ents c) + 3
      | AtFanout r \<Rightarrow> length (ents c) + 2
      | AtWait \<Rightarrow> length (rest c) + 1
      | Returned r \<Rightarrow> 0
      | Panicked \<Rightarrow> 0)"

text \<open>
  The program counter a call that runs alone ends with, from the outcome of \<open>Do\<close>.
\<close>

definition pc_of :: "('k, 'v) outcome \<Rightarrow> ('k, 'v) pc" where
  "pc_of out = (case out of Returns r \<Rightarrow> Returned r | Blocks \<Rightarrow> AtWait | Panics \<Rightarrow> Panicked)"

section \<open>Properties of the calls\<close>

text \<open>
  The keys of the entries call \<open>t\<close> registered, in the order of registration, and what
  its loader returns for them.
\<close>

definition miss_keys :: "('k, 'v) sys \<Rightarrow> nat \<Rightarrow> 'k list" where
  "miss_keys s t = doLoad_keys (grp s) (missEnts (calls s ! t))"

definition loaded :: "('k, 'v) sys \<Rightarrow> nat \<Rightarrow> ('k \<rightharpoonup> 'v) \<times> error option" where
  "loaded s t = load (calls s ! t) (miss_keys s t)"

text \<open>
  A key type all of whose keys are equal to themselves.
\<close>

definition no_nan :: "'k \<Rightarrow> bool" where
  "no_nan k = False"

text \<open>
  A loader that has values for the keys 1 and 3 only, and a call of it on the keys 1, 2, 3
  that runs alone.
\<close>

definition ld_ac :: "(nat, string) Loader" where
  "ld_ac ks = ([1 \<mapsto> ''a'', 3 \<mapsto> ''c''], None)"

definition sched_ac :: "(nat, string) action list" where
  "sched_ac = [Call [1, 2, 3] ld_ac, Step 0, Step 0, Step 0, Step 0, Step 0, Step 0, Step 0]"

text \<open>
  The first error, in the order of the entries, that does not match the marker.
\<close>

fun first_failure :: "('k, 'v) Group \<Rightarrow> addr list \<Rightarrow> error option" where
  "first_failure g [] = None"
| "first_failure g (a # as) =
     (case err (objs g ! a) of
        Some e \<Rightarrow> if errors_Is e errResultNotFound then first_failure g as else Some e
      | None \<Rightarrow> first_failure g as)"

text \<open>
  Loaders that fail, and schedules: a call alone whose loader fails; a call alone whose
  loader fails with the marker itself; a call on the keys 1, 2 that finds key 1 in flight
  under another call, both loaders failing; and a call whose second key is in flight and
  not completed when its own loader fails for the first.
\<close>

definition ld_down :: "(nat, string) Loader" where
  "ld_down ks = (Map.empty, Some (ErrNew ''backend unavailable''))"


definition ld_A :: "(nat, string) Loader" where
  "ld_A ks = (Map.empty, Some (ErrNew ''A''))"

definition ld_B :: "(nat, string) Loader" where
  "ld_B ks = (Map.empty, Some (ErrNew ''B''))"

definition sched_down :: "(nat, string) action list" where
  "sched_down = [Call [1, 2] ld_down, Step 0, Step 0, Step 0, Step 0]"


definition sched_two :: "(nat, string) action list" where
  "sched_two =
     [Call [1] ld_A, Step 0, Call [1, 2] ld_B, Step 1, Step 1, Step 1, Step 0, Step 0, Step 1]"

definition sched_early :: "(nat, string) action list" where
  "sched_early = [Call [2] ld_ac, Step 0, Call [1, 2] ld_B, Step 1, Step 1, Step 1, Step 1]"

text \<open>
  A key type in which the key 0 is not equal to itself, as a NaN of \<^verbatim>\<open>float64\<close> is, and a
  call on that key alone whose loader has no value for it.
\<close>

definition nan0 :: "nat \<Rightarrow> bool" where
  "nan0 k = (k = 0)"

definition sched_nan :: "(nat, string) action list" where
  "sched_nan = [Call [0] ld_ac, Step 0, Step 0, Step 0, Step 0, Step 0]"




section \<open>Registration\<close>

lemma Do_register_reg:
  "Do_register z ks es ms g = (case reg z ks g of (E, M, g') \<Rightarrow> (es @ E, ms @ M, g'))"
proof (induction ks arbitrary: es ms g)
  case Nil
  then show ?case by simp
next
  case (Cons k ks)
  show ?case
    by (cases "m g k") (simp_all add: Cons.IH Let_def split: prod.splits)
qed

lemma ginv_add:
  assumes "ginv z g" "m g k = None"
  shows "ginv z (g\<lparr>objs := objs g @ [new_ent z k], m := (m g)(k \<mapsto> length (objs g))\<rparr>)"
proof -
  let ?g1 = "g\<lparr>objs := objs g @ [new_ent z k], m := (m g)(k \<mapsto> length (objs g))\<rparr>"
  have a: "a < length (objs ?g1) \<and> key (objs ?g1 ! a) = k' \<and>
      (\<not> nan ?g1 k' \<longrightarrow> wg (objs ?g1 ! a) \<noteq> 0)" if "m ?g1 k' = Some a" for k' a
  proof (cases "k' = k")
    case True
    with that have "a = length (objs g)" by simp
    with True show ?thesis by (simp add: new_ent_def)
  next
    case False
    with that have "m g k' = Some a" by simp
    with assms(1) have "a < length (objs g)" "key (objs g ! a) = k'"
      "\<not> nan g k' \<longrightarrow> wg (objs g ! a) \<noteq> 0"
      unfolding ginv_def by blast+
    then show ?thesis by (simp add: nth_append)
  qed
  have b: "m ?g1 (key (objs ?g1 ! a)) = Some a \<and>
      objs ?g1 ! a = new_ent z (key (objs ?g1 ! a))"
    if "a < length (objs ?g1)" "wg (objs ?g1 ! a) \<noteq> 0" for a
  proof (cases "a < length (objs g)")
    case True
    then have eq: "objs ?g1 ! a = objs g ! a" by (simp add: nth_append)
    with that True assms(1) have old: "m g (key (objs g ! a)) = Some a"
      "objs g ! a = new_ent z (key (objs g ! a))" unfolding ginv_def by auto
    from old(1) assms(2) have "key (objs g ! a) \<noteq> k" by auto
    with old show ?thesis using eq by simp
  next
    case False
    with that(1) have "a = length (objs g)" by simp
    then show ?thesis by (simp add: new_ent_def)
  qed
  show ?thesis unfolding ginv_def using a b by blast
qed

lemma reg_ginv: "ginv z g \<Longrightarrow> reg z ks g = (E, M, g') \<Longrightarrow> ginv z g'"
  by (induction ks arbitrary: g E M) (auto split: option.splits prod.splits dest: ginv_add)

lemma reg_length: "reg z ks g = (E, M, g') \<Longrightarrow> length E = length ks"
  by (induction ks arbitrary: g E M) (auto split: option.splits prod.splits)

lemma reg_mono: "reg z ks g = (E, M, g') \<Longrightarrow> m g k = Some a \<Longrightarrow> m g' k = Some a"
proof (induction ks arbitrary: g E M)
  case Nil
  then show ?case by simp
next
  case (Cons x ks)
  show ?case
  proof (cases "m g x")
    case None
    with Cons.prems have "x \<noteq> k" by auto
    with None Cons show ?thesis by (auto split: prod.splits)
  next
    case (Some e)
    with Cons show ?thesis by (auto split: prod.splits)
  qed
qed

lemma reg_other: "reg z ks g = (E, M, g') \<Longrightarrow> k \<notin> set ks \<Longrightarrow> m g' k = m g k"
  by (induction ks arbitrary: g E M) (auto split: option.splits prod.splits)

lemma reg_nan: "reg z ks g = (E, M, g') \<Longrightarrow> nan g' = nan g"
  by (induction ks arbitrary: g E M) (auto split: option.splits prod.splits)

lemma reg_lookup:
  "reg z ks g = (E, M, g') \<Longrightarrow> i < length ks \<Longrightarrow> m g' (ks ! i) = Some (E ! i)"
proof (induction ks arbitrary: g E M i)
  case Nil
  then show ?case by simp
next
  case (Cons x ks)
  show ?case
  proof (cases "m g x")
    case None
    let ?g1 = "g\<lparr>objs := objs g @ [new_ent z x], m := (m g)(x \<mapsto> length (objs g))\<rparr>"
    from None Cons.prems obtain E' M' where r: "reg z ks ?g1 = (E', M', g')"
      and E: "E = length (objs g) # E'"
      by (auto split: prod.splits)
    show ?thesis
    proof (cases i)
      case 0
      have "m ?g1 x = Some (length (objs g))" by simp
      from reg_mono[OF r this] 0 E show ?thesis by simp
    next
      case (Suc j)
      with Cons.prems have "j < length ks" by simp
      from Cons.IH[OF r this] Suc E show ?thesis by simp
    qed
  next
    case (Some e)
    from Some Cons.prems obtain E' where r: "reg z ks g = (E', M, g')" and E: "E = e # E'"
      by (auto split: prod.splits)
    show ?thesis
    proof (cases i)
      case 0
      from reg_mono[OF r Some] 0 E show ?thesis by simp
    next
      case (Suc j)
      with Cons.prems have "j < length ks" by simp
      from Cons.IH[OF r this] Suc E show ?thesis by simp
    qed
  qed
qed

lemma reg_objs:
  "reg z ks g = (E, M, g') \<Longrightarrow>
     \<exists>N. objs g' = objs g @ map (new_ent z) N \<and>
         M = [length (objs g) ..< length (objs g) + length N] \<and>
         distinct N \<and> set N = set ks - dom (m g)"
proof (induction ks arbitrary: g E M)
  case Nil
  then show ?case by simp
next
  case (Cons x ks)
  show ?case
  proof (cases "m g x")
    case None
    let ?g1 = "g\<lparr>objs := objs g @ [new_ent z x], m := (m g)(x \<mapsto> length (objs g))\<rparr>"
    from None Cons.prems obtain E' M' where r: "reg z ks ?g1 = (E', M', g')"
      and M: "M = length (objs g) # M'"
      by (auto split: prod.splits)
    from Cons.IH[OF r] obtain N where N: "objs g' = objs ?g1 @ map (new_ent z) N"
      "M' = [length (objs ?g1) ..< length (objs ?g1) + length N]"
      "distinct N" "set N = set ks - dom (m ?g1)" by blast
    have "objs g' = objs g @ map (new_ent z) (x # N)" using N(1) by simp
    moreover have "M = [length (objs g) ..< length (objs g) + length (x # N)]"
      using M N(2) by (simp add: upt_rec)
    moreover have "distinct (x # N)" using N(3,4) by auto
    moreover have "set (x # N) = set (x # ks) - dom (m g)" using N(4) None by auto
    ultimately show ?thesis by blast
  next
    case (Some e)
    from Some Cons.prems obtain E' where r: "reg z ks g = (E', M, g')"
      by (auto split: prod.splits)
    from Cons.IH[OF r] obtain N where N: "objs g' = objs g @ map (new_ent z) N"
      "M = [length (objs g) ..< length (objs g) + length N]"
      "distinct N" "set N = set ks - dom (m g)" by blast
    have "set N = set (x # ks) - dom (m g)" using N(4) Some by auto
    with N show ?thesis by blast
  qed
qed


lemma reg_miss_sub: "reg z ks g = (E, M, g') \<Longrightarrow> set M \<subseteq> set E"
proof (induction ks arbitrary: g E M)
  case Nil
  then show ?case by simp
next
  case (Cons x ks)
  show ?case
  proof (cases "m g x")
    case None
    with Cons.prems obtain E' M' where
      r: "reg z ks (g\<lparr>objs := objs g @ [new_ent z x], m := (m g)(x \<mapsto> length (objs g))\<rparr>) = (E', M', g')"
      and E: "E = length (objs g) # E'" "M = length (objs g) # M'"
      by (auto split: prod.splits)
    from Cons.IH[OF r] E show ?thesis by auto
  next
    case (Some e)
    with Cons.prems obtain E' where r: "reg z ks g = (E', M, g')" and E: "E = e # E'"
      by (auto split: prod.splits)
    from Cons.IH[OF r] E show ?thesis by auto
  qed
qed

section \<open>The second critical section\<close>

lemma doLoad_finish_Nil: "doLoad_finish g [] r = Some g"
  by (simp add: doLoad_finish_def split: option.splits)

lemma doLoad_finish_Cons:
  "doLoad_finish g (e # es) r =
     (case fan1 r g e of None \<Rightarrow> None | Some g' \<Rightarrow> doLoad_finish g' es r)"
  by (simp add: doLoad_finish_def fan1_def split: option.splits)

lemma pendingD:
  assumes "ginv z g" "a < length (objs g)" "wg (objs g ! a) \<noteq> 0"
  shows "m g (key (objs g ! a)) = Some a" "objs g ! a = new_ent z (key (objs g ! a))"
proof -
  from assms show "m g (key (objs g ! a)) = Some a" unfolding ginv_def by blast
  from assms show "objs g ! a = new_ent z (key (objs g ! a))" unfolding ginv_def by blast
qed

lemma fan1_pending:
  assumes "ginv z g" "a < length (objs g)" "wg (objs g ! a) \<noteq> 0"
  shows "fan1 r g a =
     Some (g\<lparr>objs := (objs g)[a := fanned z r (key (objs g ! a))],
             m := map_delete g (key (objs g ! a))\<rparr>)"
proof -
  from pendingD(2)[OF assms] obtain k where x: "objs g ! a = new_ent z k" by blast
  show ?thesis
    by (simp add: x fan1_def fanned_def setCallErr_def setCallResult_def wg_Done_def new_ent_def
        split: option.splits)
qed

lemma ginv_complete:
  assumes "ginv z g" "a < length (objs g)" "wg (objs g ! a) \<noteq> 0"
    and "key x' = key (objs g ! a)" "wg x' = 0"
  shows "ginv z (g\<lparr>objs := (objs g)[a := x'], m := map_delete g (key (objs g ! a))\<rparr>)"
proof -
  let ?k = "key (objs g ! a)"
  let ?g1 = "g\<lparr>objs := (objs g)[a := x'], m := map_delete g ?k\<rparr>"
  note p = pendingD[OF assms(1-3)]
  have a: "b < length (objs ?g1) \<and> key (objs ?g1 ! b) = k \<and>
      (\<not> nan ?g1 k \<longrightarrow> wg (objs ?g1 ! b) \<noteq> 0)" if "m ?g1 k = Some b" for k b
  proof -
    from that have mb: "m g k = Some b" and k: "k = ?k \<longrightarrow> nan g k"
      by (auto simp: map_delete_def split: if_splits)
    from mb assms(1) have b: "b < length (objs g)" "key (objs g ! b) = k"
      "\<not> nan g k \<longrightarrow> wg (objs g ! b) \<noteq> 0"
      unfolding ginv_def by blast+
    show ?thesis
    proof (cases "b = a")
      case True
      with b(2) k have "nan g k" by simp
      with True b assms(2,4) show ?thesis by simp
    next
      case False
      with b show ?thesis by simp
    qed
  qed
  have b: "m ?g1 (key (objs ?g1 ! b)) = Some b \<and>
      objs ?g1 ! b = new_ent z (key (objs ?g1 ! b))"
    if "b < length (objs ?g1)" "wg (objs ?g1 ! b) \<noteq> 0" for b
  proof -
    from that assms(5) have ne: "b \<noteq> a" by auto
    with that have old: "b < length (objs g)" "wg (objs g ! b) \<noteq> 0" by auto
    note q = pendingD[OF assms(1) old]
    from q(1) p(1) ne have "key (objs g ! b) \<noteq> ?k" by auto
    with q ne show ?thesis by (simp add: map_delete_def)
  qed
  show ?thesis unfolding ginv_def using a b by blast
qed

lemma fanned_key [simp]: "key (fanned z r k) = k"
  by (simp add: fanned_def split: option.splits)

lemma fanned_wg [simp]: "wg (fanned z r k) = 0"
  by (simp add: fanned_def split: option.splits)

lemma doLoad_finish_spec:
  assumes "ginv z g" "distinct ms" "\<forall>a \<in> set ms. a < length (objs g) \<and> wg (objs g ! a) \<noteq> 0"
  shows "\<exists>g'. doLoad_finish g ms r = Some g' \<and> ginv z g' \<and> fan_post z r ms g g'"
  using assms
proof (induction ms arbitrary: g)
  case Nil
  then show ?case by (simp add: doLoad_finish_Nil fan_post_def)
next
  case (Cons a ms)
  let ?k = "key (objs g ! a)"
  let ?g1 = "g\<lparr>objs := (objs g)[a := fanned z r ?k], m := map_delete g ?k\<rparr>"
  from Cons.prems have a: "a < length (objs g)" "wg (objs g ! a) \<noteq> 0" "a \<notin> set ms" by auto
  have f: "fan1 r g a = Some ?g1" by (rule fan1_pending[OF Cons.prems(1) a(1,2)])
  have g1: "ginv z ?g1" by (rule ginv_complete[OF Cons.prems(1) a(1,2)]) simp_all
  have same: "objs ?g1 ! b = objs g ! b" if "b \<in> set ms" for b
  proof -
    from that a(3) have "a \<noteq> b" by blast
    then show ?thesis by simp
  qed
  have "\<forall>b \<in> set ms. b < length (objs ?g1) \<and> wg (objs ?g1 ! b) \<noteq> 0"
    using Cons.prems(3) same by auto
  from Cons.IH[OF g1 _ this] Cons.prems(2) obtain g' where
    g': "doLoad_finish ?g1 ms r = Some g'" "ginv z g'" "fan_post z r ms ?g1 g'"
    by auto
  have "fan_post z r (a # ms) g g'"
    unfolding fan_post_def
  proof (intro conjI allI impI)
    show "length (objs g') = length (objs g)" using g'(3) by (simp add: fan_post_def)
  next
    fix b assume b: "b < length (objs g)"
    from g'(3) b have "objs g' ! b =
      (if b \<in> set ms then fanned z r (key (objs ?g1 ! b)) else objs ?g1 ! b)"
      by (simp add: fan_post_def)
    then show "objs g' ! b =
      (if b \<in> set (a # ms) then fanned z r (key (objs g ! b)) else objs g ! b)"
      using same a(1,3) by (cases "b = a") auto
  next
    fix k
    from g'(3) have "m g' k =
      (if k \<in> (\<lambda>b. key (objs ?g1 ! b)) ` set ms \<and> \<not> nan g k then None else m ?g1 k)"
      by (simp add: fan_post_def)
    moreover have "(\<lambda>b. key (objs ?g1 ! b)) ` set ms = (\<lambda>b. key (objs g ! b)) ` set ms"
      using same by (intro image_cong) auto
    ultimately show "m g' k =
      (if k \<in> (\<lambda>b. key (objs g ! b)) ` set (a # ms) \<and> \<not> nan g k then None else m g k)"
      by (auto simp: map_delete_def)
  next
    from g'(3) show "nan g' = nan g" by (simp add: fan_post_def)
  qed
  with f g'(1,2) show ?case by (auto simp: doLoad_finish_Cons)
qed

section \<open>The invariant is kept by every step\<close>

lemma ev_refl: "ev g g"
  by (simp add: ev_def)

lemma Do_visit_ev:
  assumes "ev g g'" "a < length (objs g)" "Do_visit g a \<noteq> Wait_blocks"
  shows "Do_visit g' a = Do_visit g a"
proof -
  from assms(3) have "wg (objs g ! a) = 0"
    by (auto simp: Do_visit_def Let_def split: if_splits)
  with assms(1,2) have "objs g' ! a = objs g ! a" by (simp add: ev_def)
  then show ?thesis by (simp add: Do_visit_def)
qed

lemma Do_collect_ev:
  assumes "ev g g'"
  shows "\<forall>a \<in> set es. a < length (objs g) \<Longrightarrow> Do_collect g es res = Returns r
    \<Longrightarrow> Do_collect g' es res = Returns r"
proof (induction es arbitrary: res)
  case Nil
  then show ?case by simp
next
  case (Cons a es)
  from Cons.prems have nb: "Do_visit g a \<noteq> Wait_blocks" by (auto split: visit.splits)
  from Cons.prems have "a < length (objs g)" by simp
  from Do_visit_ev[OF assms this nb] have eq: "Do_visit g' a = Do_visit g a" .
  show ?case
  proof (cases "Do_visit g a")
    case Wait_blocks
    with nb show ?thesis by simp
  next
    case Skip
    with Cons eq show ?thesis by simp
  next
    case (Fail e)
    with Cons eq show ?thesis by simp
  next
    case (Put k v)
    with Cons eq show ?thesis by simp
  qed
qed

lemma Do_collect_append:
  "Do_collect g pre res0 = Returns (Inr res) \<Longrightarrow>
     Do_collect g (pre @ es) res0 = Do_collect g es res"
proof (induction pre arbitrary: res0)
  case Nil
  then show ?case by simp
next
  case (Cons a pre)
  then show ?case by (cases "Do_visit g a") simp_all
qed

lemma doLoad_keys_ev:
  assumes "ev g g'" "\<forall>a \<in> set es. a < length (objs g)"
  shows "doLoad_keys g' es = doLoad_keys g es"
  using assms by (simp add: doLoad_keys_def ev_def)

lemma cinv_frame:
  assumes c: "cinv z g c" and e: "ev g g'"
    and own: "\<forall>a \<in> set (missEnts c). objs g' ! a = objs g ! a"
  shows "cinv z g' c"
proof -
  from c have lt: "\<forall>a \<in> set (ents c). a < length (objs g)" by (simp add: cinv_def)
  from c have sub: "set (missEnts c) \<subseteq> set (ents c)" by (simp add: cinv_def)
  from lt sub have ltm: "\<forall>a \<in> set (missEnts c). a < length (objs g)" by blast
  have k1: "doLoad_keys g' (ents c) = doLoad_keys g (ents c)"
    by (rule doLoad_keys_ev[OF e lt])
  have k2: "doLoad_keys g' (missEnts c) = doLoad_keys g (missEnts c)"
    by (rule doLoad_keys_ev[OF e ltm])
  have lt': "\<forall>a \<in> set (ents c). a < length (objs g')"
    using lt e by (auto simp: ev_def)
  have inj: "inj_on (\<lambda>a. key (objs g' ! a)) (set (ents c))"
  proof -
    have "inj_on (\<lambda>a. key (objs g ! a)) (set (ents c))" using c by (simp add: cinv_def)
    moreover have "\<forall>a \<in> set (ents c). key (objs g' ! a) = key (objs g ! a)"
      using lt e by (simp add: ev_def)
    ultimately show ?thesis by (simp add: inj_on_def)
  qed
  have w: "\<exists>pre. ents c = pre @ rest c \<and> Do_collect g' pre Map.empty = Returns (Inr (result c))"
    if "past c"
  proof -
    from c that obtain pre where p: "ents c = pre @ rest c"
      "Do_collect g pre Map.empty = Returns (Inr (result c))"
      unfolding cinv_def by blast
    from p(1) lt have "\<forall>a \<in> set pre. a < length (objs g)" by simp
    from Do_collect_ev[OF e this p(2)] p(1) show ?thesis by blast
  qed
  have r: "rest c \<noteq> [] \<and> Do_visit g' (hd (rest c)) = Fail x" if "pc c = Returned (Inl x)" for x
  proof -
    from c that have f: "rest c \<noteq> []" "Do_visit g (hd (rest c)) = Fail x"
      by (simp_all add: cinv_def)
    from that have "past c" by (simp add: past_def)
    from c this obtain pre where "ents c = pre @ rest c" unfolding cinv_def by blast
    with f(1) lt have "hd (rest c) < length (objs g)" by (cases "rest c") auto
    from Do_visit_ev[OF e this] f show ?thesis by simp
  qed
  show ?thesis
    unfolding cinv_def
  proof (intro conjI)
    show "pc c \<noteq> Panicked" using c by (simp add: cinv_def)
    show "pc c = AtLock \<longrightarrow> ents c = [] \<and> missEnts c = [] \<and> loads c = []"
      using c by (simp add: cinv_def)
    show "pc c \<noteq> AtLock \<longrightarrow> doLoad_keys g' (ents c) = keys c"
      using c k1 by (simp add: cinv_def)
    show "\<forall>a \<in> set (ents c). a < length (objs g')" by (rule lt')
    show "set (missEnts c) \<subseteq> set (ents c)" by (rule sub)
    show "distinct (missEnts c)" using c by (simp add: cinv_def)
    show "inj_on (\<lambda>a. key (objs g' ! a)) (set (ents c))" by (rule inj)
    show "owning c \<longrightarrow> (\<forall>a \<in> set (missEnts c). wg (objs g' ! a) \<noteq> 0)"
      using c own by (simp add: cinv_def)
    show "pc c = AtLoad \<longrightarrow> loads c = []" using c by (simp add: cinv_def)
    show "\<forall>r. pc c = AtFanout r \<longrightarrow>
        missEnts c \<noteq> [] \<and> loads c = [doLoad_keys g' (missEnts c)] \<and>
        r = load c (doLoad_keys g' (missEnts c))"
      using c k2 by (simp add: cinv_def)
    show "past c \<longrightarrow>
        loads c = (if missEnts c = [] then [] else [doLoad_keys g' (missEnts c)]) \<and>
        (\<forall>a \<in> set (missEnts c).
           objs g' ! a = fanned z (load c (doLoad_keys g' (missEnts c))) (key (objs g' ! a)))"
      using c k2 own by (simp add: cinv_def)
    show "past c \<longrightarrow>
        (\<exists>pre. ents c = pre @ rest c \<and>
           Do_collect g' pre Map.empty = Returns (Inr (result c)))"
      using w by blast
    show "\<forall>res. pc c = Returned (Inr res) \<longrightarrow> rest c = [] \<and> res = result c"
      using c by (simp add: cinv_def)
    show "\<forall>e. pc c = Returned (Inl e) \<longrightarrow> rest c \<noteq> [] \<and> Do_visit g' (hd (rest c)) = Fail e"
      using r by blast
  qed
qed

lemma sinv_update:
  assumes s: "sinv z s" and t: "t < length (calls s)"
    and g': "ginv z g'" and e: "ev (grp s) g'"
    and touched: "\<forall>a < length (objs (grp s)).
        a \<notin> set (missEnts (calls s ! t)) \<longrightarrow> objs g' ! a = objs (grp s) ! a"
    and c': "cinv z g' c'"
    and fresh: "\<forall>a \<in> set (missEnts c').
        a \<in> set (missEnts (calls s ! t)) \<or> length (objs (grp s)) \<le> a"
    and keep: "set (missEnts (calls s ! t)) \<subseteq> set (missEnts c')"
    and creator: "\<forall>a < length (objs g').
        a < length (objs (grp s)) \<or> a \<in> set (missEnts c')"
  shows "sinv z (s\<lparr>grp := g', calls := (calls s)[t := c']\<rparr>)"
proof -
  let ?g = "grp s" and ?cs = "calls s"
  from s have ci: "\<And>i. i < length ?cs \<Longrightarrow> cinv z ?g (?cs ! i)" by (simp add: sinv_def)
  from s have dj: "\<And>i j. i < length ?cs \<Longrightarrow> j < length ?cs \<Longrightarrow> i \<noteq> j \<Longrightarrow>
      set (missEnts (?cs ! i)) \<inter> set (missEnts (?cs ! j)) = {}" by (simp add: sinv_def)
  from s have ow: "\<And>a. a < length (objs ?g) \<Longrightarrow>
      \<exists>i < length ?cs. a \<in> set (missEnts (?cs ! i))" by (simp add: sinv_def)
  have ltm: "a < length (objs ?g)" if "i < length ?cs" "a \<in> set (missEnts (?cs ! i))" for i a
    using ci[OF that(1)] that(2) unfolding cinv_def by blast
  have other: "cinv z g' (?cs ! i)" if i: "i < length ?cs" "i \<noteq> t" for i
  proof (rule cinv_frame[OF ci[OF i(1)] e], rule ballI)
    fix a assume a: "a \<in> set (missEnts (?cs ! i))"
    from dj[OF i(1) t i(2)] a have "a \<notin> set (missEnts (?cs ! t))" by blast
    with touched ltm[OF i(1) a] show "objs g' ! a = objs ?g ! a" by blast
  qed
  have 1: "cinv z g' (?cs[t := c'] ! i)" if "i < length ?cs" for i
    using that other c' by (cases "i = t") simp_all
  have 2: "set (missEnts (?cs[t := c'] ! i)) \<inter> set (missEnts (?cs[t := c'] ! j)) = {}"
    if ij: "i < length ?cs" "j < length ?cs" "i \<noteq> j" for i j
  proof -
    have x: "set (missEnts c') \<inter> set (missEnts (?cs ! k)) = {}" if k: "k < length ?cs" "k \<noteq> t" for k
    proof -
      have "a \<notin> set (missEnts (?cs ! k))" if a: "a \<in> set (missEnts c')" for a
      proof
        assume b: "a \<in> set (missEnts (?cs ! k))"
        from ltm[OF k(1) b] fresh a have "a \<in> set (missEnts (?cs ! t))" by auto
        with dj[OF k(1) t k(2)] b show False by blast
      qed
      then show ?thesis by blast
    qed
    show ?thesis
    proof (cases "i = t")
      case True
      with ij x[of j] show ?thesis by simp
    next
      case False
      show ?thesis
      proof (cases "j = t")
        case True
        with ij x[of i] False show ?thesis by (simp add: Int_commute)
      next
        case False
        with \<open>i \<noteq> t\<close> ij dj show ?thesis by simp
      qed
    qed
  qed
  have 3: "\<exists>i < length ?cs. a \<in> set (missEnts (?cs[t := c'] ! i))"
    if a: "a < length (objs g')" for a
  proof (cases "a \<in> set (missEnts c')")
    case True
    with t show ?thesis by auto
  next
    case False
    with creator a have "a < length (objs ?g)" by blast
    from ow[OF this] obtain i where
      i: "i < length ?cs" "a \<in> set (missEnts (?cs ! i))" by blast
    with False keep have "i \<noteq> t" by auto
    with i show ?thesis by auto
  qed
  show ?thesis
    unfolding sinv_def using g' 1 2 3 by simp
qed

lemma pending_owner:
  assumes s: "sinv z s" and a: "a < length (objs (grp s))" "wg (objs (grp s) ! a) \<noteq> 0"
  shows "\<exists>i < length (calls s). owning (calls s ! i) \<and> a \<in> set (missEnts (calls s ! i))"
proof -
  from s a(1) obtain i where i: "i < length (calls s)" "a \<in> set (missEnts (calls s ! i))"
    unfolding sinv_def by blast
  from s i(1) have c: "cinv z (grp s) (calls s ! i)" by (simp add: sinv_def)
  have "owning (calls s ! i)"
  proof (cases "pc (calls s ! i)")
    case AtLock
    with c i(2) show ?thesis by (simp add: cinv_def)
  next
    case AtLoad
    then show ?thesis by (simp add: owning_def)
  next
    case (AtFanout r)
    then show ?thesis by (simp add: owning_def)
  next
    case AtWait
    with c i(2) have "objs (grp s) ! a = fanned z (load (calls s ! i)
      (doLoad_keys (grp s) (missEnts (calls s ! i)))) (key (objs (grp s) ! a))"
      by (simp add: cinv_def past_def)
    then have "wg (objs (grp s) ! a) = 0" by (metis fanned_wg)
    with a(2) show ?thesis by simp
  next
    case (Returned r)
    with c i(2) have "objs (grp s) ! a = fanned z (load (calls s ! i)
      (doLoad_keys (grp s) (missEnts (calls s ! i)))) (key (objs (grp s) ! a))"
      by (simp add: cinv_def past_def)
    then have "wg (objs (grp s) ! a) = 0" by (metis fanned_wg)
    with a(2) show ?thesis by simp
  next
    case Panicked
    with c show ?thesis by (simp add: cinv_def)
  qed
  with i show ?thesis by blast
qed

lemma sinv_local:
  assumes s: "sinv z s" and t: "t < length (calls s)"
    and c': "cinv z (grp s) c'"
    and ms: "missEnts c' = missEnts (calls s ! t)"
  shows "sinv z (s\<lparr>grp := grp s, calls := (calls s)[t := c']\<rparr>)"
proof (rule sinv_update[OF s t _ ev_refl _ c'])
  show "ginv z (grp s)" using s by (simp add: sinv_def)
  show "\<forall>a<length (objs (grp s)).
       a \<notin> set (missEnts (calls s ! t)) \<longrightarrow> objs (grp s) ! a = objs (grp s) ! a" by simp
  show "\<forall>a\<in>set (missEnts c'). a \<in> set (missEnts (calls s ! t)) \<or> length (objs (grp s)) \<le> a"
    using ms by simp
  show "set (missEnts (calls s ! t)) \<subseteq> set (missEnts c')" using ms by simp
  show "\<forall>a<length (objs (grp s)). a < length (objs (grp s)) \<or> a \<in> set (missEnts c')" by simp
qed

lemma step_lock:
  assumes s: "sinv z s" and t: "t < length (calls s)" and pc: "pc (calls s ! t) = AtLock"
    and r: "reg z (keys (calls s ! t)) (grp s) = (E, M, g')"
  shows "sinv z (s\<lparr>grp := g', calls := (calls s)[t := (calls s ! t)\<lparr>ents := E, missEnts := M, pc := AtLoad\<rparr>]\<rparr>)"
proof -
  let ?g = "grp s" and ?c = "calls s ! t"
  let ?ks = "keys ?c"
  let ?c' = "?c\<lparr>ents := E, missEnts := M, pc := AtLoad\<rparr>"
  from s have g: "ginv z ?g" by (simp add: sinv_def)
  from s t have c: "cinv z ?g ?c" by (simp add: sinv_def)
  from c pc have c0: "missEnts ?c = []" "loads ?c = []" by (simp_all add: cinv_def)
  have g': "ginv z g'" by (rule reg_ginv[OF g r])
  from reg_objs[OF r] obtain N where N: "objs g' = objs ?g @ map (new_ent z) N"
    "M = [length (objs ?g) ..< length (objs ?g) + length N]" by blast
  have e: "ev ?g g'" by (simp add: ev_def N(1) nth_append)
  have len: "length E = length ?ks" by (rule reg_length[OF r])
  have look: "\<And>i. i < length ?ks \<Longrightarrow> m g' (?ks ! i) = Some (E ! i)" by (rule reg_lookup[OF r])
  have ent: "E ! i < length (objs g') \<and> key (objs g' ! (E ! i)) = ?ks ! i"
    if "i < length ?ks" for i
    using look[OF that] g' unfolding ginv_def by blast
  have keys: "doLoad_keys g' E = ?ks"
    unfolding doLoad_keys_def
    by (rule nth_equalityI) (simp_all add: len ent)
  have lt: "\<forall>a \<in> set E. a < length (objs g')"
    using ent len by (auto simp: in_set_conv_nth)
  have inj: "inj_on (\<lambda>a. key (objs g' ! a)) (set E)"
  proof (rule inj_onI)
    fix a b assume "a \<in> set E" "b \<in> set E" and k: "key (objs g' ! a) = key (objs g' ! b)"
    then obtain i j where i: "i < length ?ks" "a = E ! i" and j: "j < length ?ks" "b = E ! j"
      using len by (auto simp: in_set_conv_nth)
    from k i j ent[OF i(1)] ent[OF j(1)] have "?ks ! i = ?ks ! j" by simp
    with look[OF i(1)] look[OF j(1)] i j show "a = b" by simp
  qed
  have pend: "\<forall>a \<in> set M. wg (objs g' ! a) \<noteq> 0"
    by (auto simp: N nth_append new_ent_def)
  have c': "cinv z g' ?c'"
    unfolding cinv_def
    using keys lt reg_miss_sub[OF r] inj pend c0 N(2)
    by (simp add: owning_def past_def)
  show ?thesis
  proof (rule sinv_update[OF s t g' e _ c'])
    show "\<forall>a<length (objs ?g). a \<notin> set (missEnts ?c) \<longrightarrow> objs g' ! a = objs ?g ! a"
      by (simp add: N(1) nth_append)
    show "\<forall>a\<in>set (missEnts ?c'). a \<in> set (missEnts ?c) \<or> length (objs ?g) \<le> a"
      by (simp add: N(2))
    show "set (missEnts ?c) \<subseteq> set (missEnts ?c')" by (simp add: c0)
    show "\<forall>a<length (objs g'). a < length (objs ?g) \<or> a \<in> set (missEnts ?c')"
      by (auto simp: N)
  qed
qed

lemma step_fanout:
  assumes s: "sinv z s" and t: "t < length (calls s)" and pc: "pc (calls s ! t) = AtFanout r"
  shows "\<exists>g'. doLoad_finish (grp s) (missEnts (calls s ! t)) r = Some g' \<and>
    sinv z (s\<lparr>grp := g', calls := (calls s)[t := (calls s ! t)\<lparr>rest := ents (calls s ! t), result := Map.empty, pc := AtWait\<rparr>]\<rparr>)"
proof -
  let ?g = "grp s" and ?c = "calls s ! t"
  let ?ms = "missEnts ?c"
  let ?c' = "?c\<lparr>rest := ents ?c, result := Map.empty, pc := AtWait\<rparr>"
  from s have g: "ginv z ?g" by (simp add: sinv_def)
  from s t have c: "cinv z ?g ?c" by (simp add: sinv_def)
  from c have lt: "\<forall>a \<in> set (ents ?c). a < length (objs ?g)" by (simp add: cinv_def)
  from c have sub: "set ?ms \<subseteq> set (ents ?c)" and dist: "distinct ?ms" by (simp_all add: cinv_def)
  from c pc have pend: "\<forall>a \<in> set ?ms. wg (objs ?g ! a) \<noteq> 0" by (simp add: cinv_def owning_def)
  from c pc have ld: "?ms \<noteq> []" "loads ?c = [doLoad_keys ?g ?ms]"
    "r = load ?c (doLoad_keys ?g ?ms)" by (simp_all add: cinv_def)
  from c pc have keys: "doLoad_keys ?g (ents ?c) = keys ?c" by (simp add: cinv_def)
  from c have inj: "inj_on (\<lambda>a. key (objs ?g ! a)) (set (ents ?c))" by (simp add: cinv_def)
  have "\<forall>a \<in> set ?ms. a < length (objs ?g) \<and> wg (objs ?g ! a) \<noteq> 0"
    using lt sub pend by blast
  from doLoad_finish_spec[OF g dist this, of r] obtain g' where
    f: "doLoad_finish ?g ?ms r = Some g'" and g': "ginv z g'" and post: "fan_post z r ?ms ?g g'"
    by blast
  from post have len: "length (objs g') = length (objs ?g)" by (simp add: fan_post_def)
  from post have nth: "\<And>b. b < length (objs ?g) \<Longrightarrow>
      objs g' ! b = (if b \<in> set ?ms then fanned z r (key (objs ?g ! b)) else objs ?g ! b)"
    by (simp add: fan_post_def)
  have e: "ev ?g g'"
    unfolding ev_def using len nth pend by auto
  have k1: "doLoad_keys g' (ents ?c) = doLoad_keys ?g (ents ?c)"
    by (rule doLoad_keys_ev[OF e lt])
  have k2: "doLoad_keys g' ?ms = doLoad_keys ?g ?ms"
    by (rule doLoad_keys_ev[OF e]) (use lt sub in blast)
  have inj': "inj_on (\<lambda>a. key (objs g' ! a)) (set (ents ?c))"
  proof -
    have "\<forall>a \<in> set (ents ?c). key (objs g' ! a) = key (objs ?g ! a)"
      using lt e by (simp add: ev_def)
    with inj show ?thesis by (simp add: inj_on_def)
  qed
  have content: "\<forall>a \<in> set ?ms. objs g' ! a = fanned z (load ?c (doLoad_keys g' ?ms)) (key (objs g' ! a))"
  proof
    fix a assume a: "a \<in> set ?ms"
    with lt sub have "a < length (objs ?g)" by blast
    with nth[OF this] a ld(3) k2 show "objs g' ! a = fanned z (load ?c (doLoad_keys g' ?ms)) (key (objs g' ! a))"
      by simp
  qed
  have c': "cinv z g' ?c'"
    unfolding cinv_def
    using k1 k2 keys lt len sub dist inj' ld content
    by (simp add: owning_def past_def)
  have "sinv z (s\<lparr>grp := g', calls := (calls s)[t := ?c']\<rparr>)"
  proof (rule sinv_update[OF s t g' e _ c'])
    show "\<forall>a<length (objs ?g). a \<notin> set ?ms \<longrightarrow> objs g' ! a = objs ?g ! a"
      using nth by simp
    show "\<forall>a\<in>set (missEnts ?c'). a \<in> set ?ms \<or> length (objs ?g) \<le> a" by simp
    show "set ?ms \<subseteq> set (missEnts ?c')" by simp
    show "\<forall>a<length (objs g'). a < length (objs ?g) \<or> a \<in> set (missEnts ?c')"
      using len by simp
  qed
  with f show ?thesis by blast
qed

lemma cinv_load:
  assumes c: "cinv z g c" and pc: "pc c = AtLoad" and ms: "missEnts c \<noteq> []"
  shows "cinv z g (c\<lparr>loads := loads c @ [doLoad_keys g (missEnts c)],
                     pc := AtFanout (load c (doLoad_keys g (missEnts c)))\<rparr>)"
  using assms unfolding cinv_def by (simp add: owning_def past_def)

lemma cinv_noload:
  assumes c: "cinv z g c" and pc: "pc c = AtLoad" and ms: "missEnts c = []"
  shows "cinv z g (c\<lparr>rest := ents c, result := Map.empty, pc := AtWait\<rparr>)"
  using assms unfolding cinv_def by (simp add: owning_def past_def)

lemma cinv_wait_done:
  assumes c: "cinv z g c" and pc: "pc c = AtWait" and r: "rest c = []"
  shows "cinv z g (c\<lparr>pc := Returned (Inr (result c))\<rparr>)"
  using assms unfolding cinv_def by (auto simp: owning_def past_def)

lemma cinv_wait_fail:
  assumes c: "cinv z g c" and pc: "pc c = AtWait" and r: "rest c = e # es"
    and v: "Do_visit g e = Fail er"
  shows "cinv z g (c\<lparr>pc := Returned (Inl er)\<rparr>)"
  using assms unfolding cinv_def by (simp add: owning_def past_def)

lemma cinv_wait_next:
  assumes c: "cinv z g c" and pc: "pc c = AtWait" and r: "rest c = e # es"
    and v: "Do_collect g [e] (result c) = Returns (Inr res)"
  shows "cinv z g (c\<lparr>rest := es, result := res\<rparr>)"
proof -
  from c pc obtain pre where p: "ents c = pre @ rest c"
    "Do_collect g pre Map.empty = Returns (Inr (result c))" by (auto simp: cinv_def past_def)
  from Do_collect_append[OF p(2), of "[e]"] v
  have "Do_collect g (pre @ [e]) Map.empty = Returns (Inr res)" by simp
  moreover from p(1) r have "ents c = (pre @ [e]) @ es" by simp
  ultimately have "\<exists>pre. ents c = pre @ es \<and> Do_collect g pre Map.empty = Returns (Inr res)"
    by blast
  with c pc show ?thesis unfolding cinv_def by (simp add: owning_def past_def)
qed

lemma sinv_step:
  assumes s: "sinv z s"
  shows "sinv z (act z (Step t) s)"
proof (cases "t < length (calls s)")
  case False
  with s show ?thesis by simp
next
  case t: True
  let ?g = "grp s" and ?c = "calls s ! t"
  from s t have c: "cinv z ?g ?c" by (simp add: sinv_def)
  show ?thesis
  proof (cases "pc ?c")
    case AtLock
    obtain E M g' where r: "reg z (keys ?c) ?g = (E, M, g')" by (cases "reg z (keys ?c) ?g")
    from step_lock[OF s t AtLock r] t AtLock r show ?thesis
      by (simp add: Do_register_reg)
  next
    case AtLoad
    show ?thesis
    proof (cases "missEnts ?c = []")
      case True
      from sinv_local[OF s t cinv_noload[OF c AtLoad True]] t AtLoad True
      show ?thesis by simp
    next
      case False
      from sinv_local[OF s t cinv_load[OF c AtLoad False]] t AtLoad False
      show ?thesis by (simp add: Let_def)
    qed
  next
    case (AtFanout r)
    from step_fanout[OF s t AtFanout] t AtFanout show ?thesis by auto
  next
    case AtWait
    show ?thesis
    proof (cases "rest ?c")
      case Nil
      from sinv_local[OF s t cinv_wait_done[OF c AtWait Nil]] t AtWait Nil
      show ?thesis by simp
    next
      case (Cons e es)
      show ?thesis
      proof (cases "Do_visit ?g e")
        case Wait_blocks
        with t AtWait Cons show ?thesis using s by simp
      next
        case Skip
        then have "Do_collect ?g [e] (result ?c) = Returns (Inr (result ?c))" by simp
        from sinv_local[OF s t cinv_wait_next[OF c AtWait Cons this]] t AtWait Cons Skip
        show ?thesis by simp
      next
        case (Fail er)
        from sinv_local[OF s t cinv_wait_fail[OF c AtWait Cons Fail]] t AtWait Cons Fail
        show ?thesis by simp
      next
        case (Put k v)
        then have "Do_collect ?g [e] (result ?c) = Returns (Inr ((result ?c)(k \<mapsto> v)))" by simp
        from sinv_local[OF s t cinv_wait_next[OF c AtWait Cons this]] t AtWait Cons Put
        show ?thesis by simp
      qed
    qed
  next
    case (Returned r)
    with t s show ?thesis by simp
  next
    case Panicked
    with t s show ?thesis by simp
  qed
qed

lemma cinv_new_call: "cinv z g (new_call ks ld)"
  by (simp add: cinv_def new_call_def owning_def past_def)

lemma sinv_call:
  assumes s: "sinv z s"
  shows "sinv z (act z (Call ks ld) s)"
proof -
  let ?cs = "calls s @ [new_call ks ld]"
  have n: "?cs ! i = (if i < length (calls s) then calls s ! i else new_call ks ld)"
    if "i < length ?cs" for i
    using that by (auto simp: nth_append less_Suc_eq)
  have 1: "cinv z (grp s) (?cs ! i)" if "i < length ?cs" for i
    using n[OF that] s cinv_new_call[of z "grp s" ks ld] by (simp add: sinv_def)
  have 2: "set (missEnts (?cs ! i)) \<inter> set (missEnts (?cs ! j)) = {}"
    if "i < length ?cs" "j < length ?cs" "i \<noteq> j" for i j
  proof (cases "i < length (calls s) \<and> j < length (calls s)")
    case True
    with s that(3) show ?thesis by (simp add: sinv_def nth_append)
  next
    case False
    with n[OF that(1)] n[OF that(2)] show ?thesis by (auto simp: new_call_def)
  qed
  have 3: "\<exists>i < length ?cs. a \<in> set (missEnts (?cs ! i))"
    if "a < length (objs (grp s))" for a
  proof -
    from s that obtain i where "i < length (calls s)"
      "a \<in> set (missEnts (calls s ! i))" unfolding sinv_def by blast
    then show ?thesis by (intro exI[of _ i]) (simp add: nth_append)
  qed
  from s have "ginv z (grp s)" by (simp add: sinv_def)
  with 1 2 3 show ?thesis unfolding sinv_def by simp
qed

lemma sinv_act: "sinv z s \<Longrightarrow> sinv z (act z a s)"
  by (cases a) (simp_all only: sinv_call sinv_step)

lemma sinv_exec: "sinv z s \<Longrightarrow> sinv z (exec z as s)"
  by (induction as arbitrary: s) (simp_all add: sinv_act del: act.simps)

lemma sinv_init: "sinv z (init nk)"
  by (simp add: sinv_def init_def ginv_def)

lemma exec_append: "exec z (as @ bs) s = exec z bs (exec z as s)"
  by (induction as arbitrary: s) simp_all

section \<open>Every call can return\<close>

lemma sinv_run: "sinv z (run nk z acts)"
  unfolding run_def by (rule sinv_exec[OF sinv_init])

lemma run_append: "run nk z (acts @ bs) = exec z bs (run nk z acts)"
  by (simp add: run_def exec_append)

lemma length_calls_step: "length (calls (act z (Step t) s)) = length (calls s)"
  by (simp split: prod.splits)

lemma calls_step_other:
  "i \<noteq> t \<Longrightarrow> calls (act z (Step t) s) ! i = calls s ! i"
  by (simp split: prod.splits)

lemma Do_visit_Put:
  "Do_visit g a = Put k v \<longleftrightarrow>
     wg (objs g ! a) = 0 \<and> err (objs g ! a) = None \<and> key (objs g ! a) = k \<and> val (objs g ! a) = v"
  by (auto simp: Do_visit_def Let_def split: option.splits)

lemma Do_visit_Fail:
  "Do_visit g a = Fail e \<longleftrightarrow>
     wg (objs g ! a) = 0 \<and> err (objs g ! a) = Some e \<and> \<not> errors_Is e errResultNotFound"
  by (auto simp: Do_visit_def Let_def split: option.splits)

lemma Do_visit_Skip:
  "Do_visit g a = Skip \<longleftrightarrow>
     wg (objs g ! a) = 0 \<and> (\<exists>e. err (objs g ! a) = Some e \<and> errors_Is e errResultNotFound)"
  by (auto simp: Do_visit_def Let_def split: option.splits)

lemma Do_visit_Wait: "Do_visit g a = Wait_blocks \<longleftrightarrow> wg (objs g ! a) \<noteq> 0"
  by (auto simp: Do_visit_def Let_def split: option.splits)

lemma Do_collect_Inr_visit:
  "Do_collect g es res0 = Returns (Inr res) \<Longrightarrow> a \<in> set es \<Longrightarrow>
     Do_visit g a = Skip \<or> (\<exists>k v. Do_visit g a = Put k v)"
proof (induction es arbitrary: res0)
  case Nil
  then show ?case by simp
next
  case (Cons b es)
  then show ?case by (cases "Do_visit g b") auto
qed

lemma Do_collect_Inr_source:
  "Do_collect g es res0 = Returns (Inr res) \<Longrightarrow> res k = Some v \<Longrightarrow>
     res0 k = Some v \<or> (\<exists>a \<in> set es. Do_visit g a = Put k v)"
proof (induction es arbitrary: res0)
  case Nil
  then show ?case by simp
next
  case (Cons b es)
  show ?case
  proof (cases "Do_visit g b")
    case Wait_blocks
    with Cons.prems show ?thesis by simp
  next
    case Skip
    with Cons.prems have "Do_collect g es res0 = Returns (Inr res)" by simp
    from Cons.IH[OF this Cons.prems(2)] show ?thesis by auto
  next
    case (Fail e)
    with Cons.prems show ?thesis by simp
  next
    case (Put k' v')
    with Cons.prems have "Do_collect g es (res0(k' \<mapsto> v')) = Returns (Inr res)" by simp
    from Cons.IH[OF this Cons.prems(2)] Put show ?thesis by (auto split: if_splits)
  qed
qed

lemma Do_collect_Inr_put:
  "Do_collect g es res0 = Returns (Inr res) \<Longrightarrow>
     \<forall>a \<in> set es. \<forall>v'. Do_visit g a = Put k v' \<longrightarrow> v' = v \<Longrightarrow>
     res0 k = Some v \<or> (\<exists>a \<in> set es. Do_visit g a = Put k v) \<Longrightarrow> res k = Some v"
proof (induction es arbitrary: res0)
  case Nil
  then show ?case by simp
next
  case (Cons b es)
  show ?case
  proof (cases "Do_visit g b")
    case Wait_blocks
    with Cons.prems show ?thesis by simp
  next
    case Skip
    with Cons.prems have 1: "Do_collect g es res0 = Returns (Inr res)" by simp
    from Cons.prems(2) have 2: "\<forall>a \<in> set es. \<forall>v'. Do_visit g a = Put k v' \<longrightarrow> v' = v" by simp
    from Cons.prems(3) Skip have 3: "res0 k = Some v \<or> (\<exists>a \<in> set es. Do_visit g a = Put k v)"
      by auto
    from Cons.IH[OF 1 2 3] show ?thesis .
  next
    case (Fail e)
    with Cons.prems show ?thesis by simp
  next
    case (Put k' v')
    with Cons.prems have 1: "Do_collect g es (res0(k' \<mapsto> v')) = Returns (Inr res)" by simp
    from Cons.prems(2) have 2: "\<forall>a \<in> set es. \<forall>v'. Do_visit g a = Put k v' \<longrightarrow> v' = v" by simp
    have 3: "(res0(k' \<mapsto> v')) k = Some v \<or> (\<exists>a \<in> set es. Do_visit g a = Put k v)"
    proof (cases "k' = k")
      case True
      with Put Cons.prems(2) have "v' = v" by simp
      with True show ?thesis by simp
    next
      case False
      with Cons.prems(3) Put show ?thesis by auto
    qed
    from Cons.IH[OF 1 2 3] show ?thesis .
  qed
qed

lemma Do_collect_Inl_source:
  "Do_collect g es res0 = Returns (Inl e) \<Longrightarrow> \<exists>a \<in> set es. Do_visit g a = Fail e"
proof (induction es arbitrary: res0)
  case Nil
  then show ?case by simp
next
  case (Cons b es)
  then show ?case by (cases "Do_visit g b") auto
qed

lemma returned_collect:
  assumes s: "sinv z s" and t: "t < length (calls s)" and pc: "pc (calls s ! t) = Returned r"
  shows "Do_collect (grp s) (ents (calls s ! t)) Map.empty = Returns r"
proof -
  let ?g = "grp s" and ?c = "calls s ! t"
  from s t have c: "cinv z ?g ?c" by (simp add: sinv_def)
  from pc have "past ?c" by (simp add: past_def)
  with c obtain pre where p: "ents ?c = pre @ rest ?c"
    "Do_collect ?g pre Map.empty = Returns (Inr (result ?c))" unfolding cinv_def by blast
  show ?thesis
  proof (cases r)
    case (Inr res)
    with c pc have "rest ?c = []" "res = result ?c" by (simp_all add: cinv_def)
    with p Inr show ?thesis by simp
  next
    case (Inl e)
    with c pc have f: "rest ?c \<noteq> []" "Do_visit ?g (hd (rest ?c)) = Fail e"
      by (simp_all add: cinv_def)
    then have "Do_collect ?g (rest ?c) (result ?c) = Returns (Inl e)"
      by (cases "rest ?c") simp_all
    with Do_collect_append[OF p(2), of "rest ?c"] p(1) Inl show ?thesis by simp
  qed
qed

lemma todo_step:
  assumes s: "sinv z s" and t: "t < length (calls s)"
    and en: "pc (calls s ! t) = AtWait \<longrightarrow>
      (\<forall>a \<in> set (rest (calls s ! t)). wg (objs (grp s) ! a) = 0)"
    and nz: "todo (calls s ! t) \<noteq> 0"
  shows "todo (calls (act z (Step t) s) ! t) < todo (calls s ! t)"
proof -
  let ?g = "grp s" and ?c = "calls s ! t"
  from s t have c: "cinv z ?g ?c" by (simp add: sinv_def)
  show ?thesis
  proof (cases "pc ?c")
    case AtLock
    obtain E M g' where r: "reg z (keys ?c) ?g = (E, M, g')" by (cases "reg z (keys ?c) ?g")
    from reg_length[OF r] r t AtLock show ?thesis
      by (simp add: Do_register_reg todo_def)
  next
    case AtLoad
    with t show ?thesis by (simp add: todo_def Let_def)
  next
    case (AtFanout r)
    from step_fanout[OF s t AtFanout] obtain g' where
      "doLoad_finish ?g (missEnts ?c) r = Some g'" by blast
    with t AtFanout show ?thesis by (simp add: todo_def)
  next
    case AtWait
    show ?thesis
    proof (cases "rest ?c")
      case Nil
      with t AtWait show ?thesis by (simp add: todo_def)
    next
      case (Cons e es)
      with en AtWait have "Do_visit ?g e \<noteq> Wait_blocks" by (simp add: Do_visit_Wait)
      with t AtWait Cons show ?thesis by (cases "Do_visit ?g e") (simp_all add: todo_def)
    qed
  next
    case (Returned r)
    with nz show ?thesis by (simp add: todo_def)
  next
    case Panicked
    with nz show ?thesis by (simp add: todo_def)
  qed
qed

lemma sum_todo_step:
  assumes t: "t < length (calls s)"
    and d: "todo (calls (act z (Step t) s) ! t) < todo (calls s ! t)"
  shows "sum_list (map todo (calls (act z (Step t) s))) < sum_list (map todo (calls s))"
proof -
  obtain g' c' where st: "Do_step z (grp s) (calls s ! t) = (g', c')"
    by (cases "Do_step z (grp s) (calls s ! t)")
  with t have cs: "calls (act z (Step t) s) = (calls s)[t := c']" by simp
  with t d have lt: "todo c' < todo (calls s ! t)" by simp
  have "map todo ((calls s)[t := c']) = (map todo (calls s))[t := todo c']"
    by (simp add: map_update)
  moreover have "sum_list ((map todo (calls s))[t := todo c']) =
      sum_list (map todo (calls s)) + todo c' - map todo (calls s) ! t"
    using t by (simp add: sum_list_update)
  moreover have "map todo (calls s) ! t \<le> sum_list (map todo (calls s))"
    using t by (simp add: member_le_sum_list)
  ultimately show ?thesis using cs lt t by simp
qed

lemma progress:
  assumes s: "sinv z s" and nz: "\<exists>i < length (calls s). todo (calls s ! i) \<noteq> 0"
  shows "\<exists>t < length (calls s).
    sum_list (map todo (calls (act z (Step t) s))) < sum_list (map todo (calls s))"
proof (cases "\<exists>i < length (calls s). owning (calls s ! i)")
  case True
  then obtain i where i: "i < length (calls s)" "owning (calls s ! i)" by blast
  then have "pc (calls s ! i) \<noteq> AtWait" "todo (calls s ! i) \<noteq> 0"
    by (auto simp: owning_def todo_def split: pc.splits)
  with todo_step[OF s i(1)] sum_todo_step[OF i(1)] i(1) show ?thesis by blast
next
  case False
  from nz obtain i where i: "i < length (calls s)" "todo (calls s ! i) \<noteq> 0" by blast
  from s i(1) have c: "cinv z (grp s) (calls s ! i)" by (simp add: sinv_def)
  have "\<forall>a \<in> set (rest (calls s ! i)). wg (objs (grp s) ! a) = 0"
    if w: "pc (calls s ! i) = AtWait"
  proof
    fix a assume a: "a \<in> set (rest (calls s ! i))"
    from w have "past (calls s ! i)" by (simp add: past_def)
    with c obtain pre where "ents (calls s ! i) = pre @ rest (calls s ! i)"
      unfolding cinv_def by blast
    with a c have "a < length (objs (grp s))" unfolding cinv_def by auto
    with pending_owner[OF s this] False show "wg (objs (grp s) ! a) = 0" by blast
  qed
  with todo_step[OF s i(1) _ i(2)] sum_todo_step[OF i(1)] i(1) show ?thesis by blast
qed

text \<open>
  No state of the program is stuck: from each one, some schedule brings every call to its
  return, without starting a new call.
\<close>

lemma can_finish:
  assumes "sinv z s"
  shows "\<exists>as. length (calls (exec z as s)) = length (calls s) \<and>
    (\<forall>i < length (calls s). \<exists>r. pc (calls (exec z as s) ! i) = Returned r)"
  using assms
proof (induction "sum_list (map todo (calls s))" arbitrary: s rule: less_induct)
  case less
  show ?case
  proof (cases "\<exists>i < length (calls s). todo (calls s ! i) \<noteq> 0")
    case False
    have "\<exists>r. pc (calls s ! i) = Returned r" if i: "i < length (calls s)" for i
    proof -
      from less.prems i have "pc (calls s ! i) \<noteq> Panicked" by (simp add: sinv_def cinv_def)
      moreover from False i have "todo (calls s ! i) = 0" by blast
      ultimately show ?thesis by (cases "pc (calls s ! i)") (simp_all add: todo_def)
    qed
    then have "length (calls (exec z [] s)) = length (calls s) \<and>
      (\<forall>i < length (calls s). \<exists>r. pc (calls (exec z [] s) ! i) = Returned r)" by simp
    then show ?thesis by blast
  next
    case True
    from progress[OF less.prems True] obtain t where t: "t < length (calls s)"
      "sum_list (map todo (calls (act z (Step t) s))) < sum_list (map todo (calls s))" by blast
    let ?s' = "act z (Step t) s"
    have s': "sinv z ?s'" by (rule sinv_step[OF less.prems])
    have len: "length (calls ?s') = length (calls s)" by (rule length_calls_step)
    from less.hyps[OF t(2) s'] obtain as where
      "length (calls (exec z as ?s')) = length (calls ?s')"
      "\<forall>i < length (calls ?s'). \<exists>r. pc (calls (exec z as ?s') ! i) = Returned r" by blast
    with len have "length (calls (exec z (Step t # as) s)) = length (calls s) \<and>
      (\<forall>i < length (calls s). \<exists>r. pc (calls (exec z (Step t # as) s) ! i) = Returned r)"
      by simp
    then show ?thesis by blast
  qed
qed

lemma stutter:
  assumes "Do_step z (grp s) (calls s ! t) = (grp s, calls s ! t)"
  shows "exec z (replicate n (Step t)) s = s"
proof (induction n)
  case 0
  then show ?case by simp
next
  case (Suc n)
  from assms have "act z (Step t) s = s" by simp
  with Suc show ?case by simp
qed

lemma wait_alone:
  assumes "t < length (calls s)" and "pc (calls s ! t) = AtWait"
    and "length (rest (calls s ! t)) < n"
  shows "grp (exec z (replicate n (Step t)) s) = grp s \<and>
    length (calls (exec z (replicate n (Step t)) s)) = length (calls s) \<and>
    take t (calls (exec z (replicate n (Step t)) s)) = take t (calls s) \<and>
    loads (calls (exec z (replicate n (Step t)) s) ! t) = loads (calls s ! t) \<and>
    pc (calls (exec z (replicate n (Step t)) s) ! t) =
      pc_of (Do_collect (grp s) (rest (calls s ! t)) (result (calls s ! t)))"
  using assms
proof (induction "rest (calls s ! t)" arbitrary: s n)
  case Nil
  from Nil.prems(3) obtain n' where n: "n = Suc n'" by (cases n) auto
  let ?s1 = "act z (Step t) s"
  from Nil.hyps[symmetric] Nil.prems(1,2)
  have s1: "?s1 = s\<lparr>grp := grp s,
      calls := (calls s)[t := (calls s ! t)\<lparr>pc := Returned (Inr (result (calls s ! t)))\<rparr>]\<rparr>"
    by simp
  from s1 Nil.prems(1) have "Do_step z (grp ?s1) (calls ?s1 ! t) = (grp ?s1, calls ?s1 ! t)"
    by simp
  from stutter[OF this, of n'] n have "exec z (replicate n (Step t)) s = ?s1" by simp
  with s1 Nil.hyps[symmetric] Nil.prems(1) show ?case by (simp add: pc_of_def)
next
  case (Cons e es)
  from Cons.prems(3) Cons.hyps(2)[symmetric] obtain n' where n: "n = Suc n'" "length es < n'"
    by (cases n) auto
  let ?s1 = "act z (Step t) s"
  have e1: "exec z (replicate n (Step t)) s = exec z (replicate n' (Step t)) ?s1"
    using n by simp
  show ?case
  proof (cases "Do_visit (grp s) e")
    case Wait_blocks
    with Cons.hyps(2)[symmetric] Cons.prems(1,2)
    have "Do_step z (grp s) (calls s ! t) = (grp s, calls s ! t)" by simp
    from stutter[OF this] Wait_blocks Cons.hyps(2)[symmetric] Cons.prems(2) show ?thesis
      by (simp add: pc_of_def)
  next
    case Skip
    with Cons.hyps(2)[symmetric] Cons.prems(1,2)
    have s1: "?s1 = s\<lparr>grp := grp s, calls := (calls s)[t := (calls s ! t)\<lparr>rest := es\<rparr>]\<rparr>"
      by simp
    with Cons.prems have p: "es = rest (calls ?s1 ! t)" "t < length (calls ?s1)"
      "pc (calls ?s1 ! t) = AtWait" "length (rest (calls ?s1 ! t)) < n'"
      using n by simp_all
    from Cons.hyps(1)[OF p] s1 Cons.prems(1) Skip Cons.hyps(2)[symmetric] show ?thesis
      unfolding e1 by simp
  next
    case (Fail er)
    with Cons.hyps(2)[symmetric] Cons.prems(1,2)
    have s1: "?s1 = s\<lparr>grp := grp s,
        calls := (calls s)[t := (calls s ! t)\<lparr>pc := Returned (Inl er)\<rparr>]\<rparr>"
      by simp
    from s1 Cons.prems(1) have "Do_step z (grp ?s1) (calls ?s1 ! t) = (grp ?s1, calls ?s1 ! t)"
      by simp
    from stutter[OF this, of n'] e1 have "exec z (replicate n (Step t)) s = ?s1" by simp
    with s1 Fail Cons.hyps(2)[symmetric] Cons.prems(1) show ?thesis by (simp add: pc_of_def)
  next
    case (Put k v)
    with Cons.hyps(2)[symmetric] Cons.prems(1,2)
    have s1: "?s1 = s\<lparr>grp := grp s,
        calls := (calls s)[t := (calls s ! t)\<lparr>rest := es, result := (result (calls s ! t))(k \<mapsto> v)\<rparr>]\<rparr>"
      by simp
    with Cons.prems have p: "es = rest (calls ?s1 ! t)" "t < length (calls ?s1)"
      "pc (calls ?s1 ! t) = AtWait" "length (rest (calls ?s1 ! t)) < n'"
      using n by simp_all
    from Cons.hyps(1)[OF p] s1 Cons.prems(1) Put Cons.hyps(2)[symmetric] show ?thesis
      unfolding e1 by simp
  qed
qed

text \<open>
  A call that is started in any state and then takes enough steps, while no other call
  moves, ends as \<open>Do\<close> says: same outcome, same loader invocations, same group.
\<close>

lemma Do_run_alone:
  assumes "t = length (calls s)" and "length ks + 4 \<le> n"
    and "s' = exec z (Call ks ld # replicate n (Step t)) s"
  shows "Do z (grp s) ks ld = (out, lds, g') \<Longrightarrow>
    take t (calls s') = calls s \<and> loads (calls s' ! t) = lds \<and> pc (calls s' ! t) = pc_of out \<and>
    (out \<noteq> Panics \<longrightarrow> grp s' = g')"
proof -
  assume d: "Do z (grp s) ks ld = (out, lds, g')"
  let ?s0 = "act z (Call ks ld) s"
  obtain E M g1 where r: "reg z ks (grp s) = (E, M, g1)" by (cases "reg z ks (grp s)")
  from reg_length[OF r] have len: "length E = length ks" .
  from assms(2) obtain n1 where n1: "n = Suc n1" "length ks + 3 \<le> n1" by (cases n) auto
  from n1(2) obtain n2 where n2: "n1 = Suc n2" "length ks + 2 \<le> n2" by (cases n1) auto
  let ?c1 = "(new_call ks ld)\<lparr>ents := E, missEnts := M, pc := AtLoad\<rparr>"
  let ?s1 = "s\<lparr>grp := g1, calls := calls s @ [?c1]\<rparr>"
  have s1: "act z (Step t) ?s0 = ?s1"
    using assms(1) r by (simp add: Do_register_reg new_call_def)
  have "s' = exec z (replicate n1 (Step t)) (act z (Step t) ?s0)"
    using assms(3) n1(1) by (simp del: act.simps)
  also have "\<dots> = exec z (replicate n1 (Step t)) ?s1" by (simp only: s1)
  finally have e1: "s' = exec z (replicate n2 (Step t)) (act z (Step t) ?s1)"
    using n2(1) by (simp del: act.simps)
  show ?thesis
  proof (cases "M = []")
    case True
    let ?s2 = "s\<lparr>grp := g1,
        calls := calls s @ [?c1\<lparr>rest := E, result := Map.empty, pc := AtWait\<rparr>]\<rparr>"
    from True assms(1) have s2: "act z (Step t) ?s1 = ?s2" by simp
    have w: "t < length (calls ?s2)" "pc (calls ?s2 ! t) = AtWait"
      "length (rest (calls ?s2 ! t)) < n2"
      using assms(1) len n2(2) by simp_all
    from e1 have e: "s' = exec z (replicate n2 (Step t)) ?s2" by (simp only: s2)
    from wait_alone[OF w, of z] assms(1) d r True
    show ?thesis unfolding e by (auto simp: Do_def Do_register_reg new_call_def)
  next
    case False
    let ?r = "ld (doLoad_keys g1 M)"
    let ?c2 = "?c1\<lparr>loads := [doLoad_keys g1 M], pc := AtFanout ?r\<rparr>"
    let ?s2 = "s\<lparr>grp := g1, calls := calls s @ [?c2]\<rparr>"
    from False assms(1) have s2: "act z (Step t) ?s1 = ?s2"
      by (simp add: Let_def new_call_def)
    from n2(2) obtain n3 where n3: "n2 = Suc n3" "length ks + 1 \<le> n3" by (cases n2) auto
    from e1 have "s' = exec z (replicate n2 (Step t)) ?s2" by (simp only: s2)
    then have e2: "s' = exec z (replicate n3 (Step t)) (act z (Step t) ?s2)"
      using n3(1) by (simp del: act.simps)
    show ?thesis
    proof (cases "doLoad_finish g1 M ?r")
      case None
      let ?s3 = "s\<lparr>grp := g1, calls := calls s @ [?c2\<lparr>pc := Panicked\<rparr>]\<rparr>"
      from None assms(1) have s3: "act z (Step t) ?s2 = ?s3" by simp
      from assms(1) have "Do_step z (grp ?s3) (calls ?s3 ! t) = (grp ?s3, calls ?s3 ! t)"
        by simp
      from e2 have "s' = exec z (replicate n3 (Step t)) ?s3" by (simp only: s3)
      with stutter[OF \<open>Do_step z (grp ?s3) (calls ?s3 ! t) = (grp ?s3, calls ?s3 ! t)\<close>, of n3]
      have "s' = ?s3" by simp
      with assms(1) d r False None show ?thesis
        by (auto simp: Do_def Do_register_reg doLoad_def pc_of_def new_call_def)
    next
      case (Some g2)
      let ?s3 = "s\<lparr>grp := g2,
          calls := calls s @ [?c2\<lparr>rest := E, result := Map.empty, pc := AtWait\<rparr>]\<rparr>"
      from Some assms(1) have s3: "act z (Step t) ?s2 = ?s3" by simp
      have w: "t < length (calls ?s3)" "pc (calls ?s3 ! t) = AtWait"
        "length (rest (calls ?s3 ! t)) < n3"
        using assms(1) len n3(2) by simp_all
      from e2 have e: "s' = exec z (replicate n3 (Step t)) ?s3" by (simp only: s3)
      from wait_alone[OF w, of z] assms(1) d r False Some
      show ?thesis unfolding e by (auto simp: Do_def Do_register_reg doLoad_def new_call_def)
    qed
  qed
qed

lemmas evals = run_def init_def no_nan_def map_delete_def new_call_def new_ent_def doLoad_keys_def doLoad_finish_def
  setCallResult_def setCallErr_def wg_Done_def Do_visit_def Let_def miss_keys_def loaded_def

lemma run_ac_calls:
  "calls (run no_nan [] sched_ac) =
     [\<lparr>keys = [1, 2, 3], load = ld_ac, ents = [0, 1, 2], missEnts = [0, 1, 2], rest = [],
       result = [1 \<mapsto> ''a'', 3 \<mapsto> ''c''], loads = [[1, 2, 3]],
       pc = Returned (Inr [1 \<mapsto> ''a'', 3 \<mapsto> ''c''])\<rparr>]"
  by (simp add: sched_ac_def evals ld_ac_def)

lemma run_ac_objs:
  "objs (grp (run no_nan [] sched_ac)) =
     [\<lparr>wg = 0, key = 1, val = ''a'', err = None\<rparr>,
      \<lparr>wg = 0, key = 2, val = [], err = Some errResultNotFound\<rparr>,
      \<lparr>wg = 0, key = 3, val = ''c'', err = None\<rparr>]"
  by (simp add: sched_ac_def evals ld_ac_def)

lemma run_ac_m: "m (grp (run no_nan [] sched_ac)) = Map.empty"
  by (simp add: sched_ac_def evals ld_ac_def)

lemma can_return:
  assumes "t < length (calls (run nk z acts))"
  shows "\<exists>as r. pc (calls (run nk z (acts @ as)) ! t) = Returned r"
proof -
  from can_finish[OF sinv_run, of z nk acts] assms obtain as where
    "\<exists>r. pc (calls (exec z as (run nk z acts)) ! t) = Returned r" by blast
  then show ?thesis by (auto simp: run_append)
qed

lemma keys_step: "t < length (calls s) \<Longrightarrow> keys (calls (act z (Step u) s) ! t) = keys (calls s ! t)"
  by (cases "u = t")
    (auto simp: Let_def split: prod.splits pc.splits list.splits visit.splits option.splits)

lemma ents_of_keys:
  assumes s: "sinv z s" and t: "t < length (calls s)" and k: "keys (calls s ! t) = []"
  shows "ents (calls s ! t) = []" "missEnts (calls s ! t) = []"
proof -
  from s t have c: "cinv z (grp s) (calls s ! t)" by (simp add: sinv_def)
  from c k show e: "ents (calls s ! t) = []"
    by (cases "pc (calls s ! t) = AtLock") (simp_all add: cinv_def doLoad_keys_def)
  with c show "missEnts (calls s ! t) = []" by (simp add: cinv_def)
qed

lemma loads_shape:
  assumes s: "sinv z s" and t: "t < length (calls s)"
  shows "loads (calls s ! t) =
    (if pc (calls s ! t) = AtLock \<or> pc (calls s ! t) = AtLoad \<or> missEnts (calls s ! t) = []
     then [] else [miss_keys s t])"
proof -
  from s t have c: "cinv z (grp s) (calls s ! t)" by (simp add: sinv_def)
  show ?thesis
  proof (cases "pc (calls s ! t)")
    case AtLock
    with c show ?thesis by (simp add: cinv_def)
  next
    case AtLoad
    with c show ?thesis by (simp add: cinv_def)
  next
    case (AtFanout r)
    with c show ?thesis by (simp add: cinv_def miss_keys_def)
  next
    case AtWait
    with c show ?thesis by (simp add: cinv_def miss_keys_def past_def)
  next
    case (Returned r)
    with c show ?thesis by (simp add: cinv_def miss_keys_def past_def)
  next
    case Panicked
    with c show ?thesis by (simp add: cinv_def)
  qed
qed

lemma empty_keys_return:
  assumes s: "sinv z s" and t: "t < length (calls s)" and k: "keys (calls s ! t) = []"
  shows "pc (calls (exec z [Step t, Step t, Step t] s) ! t) = Returned (Inr Map.empty)"
proof -
  let ?c = "calls s ! t"
  from s t have c: "cinv z (grp s) ?c" by (simp add: sinv_def)
  note e = ents_of_keys[OF s t k]
  show ?thesis
  proof (cases "pc ?c")
    case AtLock
    with t k show ?thesis by simp
  next
    case AtLoad
    with t e show ?thesis by simp
  next
    case (AtFanout r)
    with c e show ?thesis by (simp add: cinv_def)
  next
    case AtWait
    with c e have "rest ?c = []" "result ?c = Map.empty" by (auto simp: cinv_def past_def)
    with t AtWait show ?thesis by simp
  next
    case (Returned r)
    then have p: "past ?c" by (simp add: past_def)
    with c e have r0: "rest ?c = []" "result ?c = Map.empty" by (auto simp: cinv_def)
    have "r = Inr Map.empty"
    proof (cases r)
      case (Inl x)
      with c Returned r0 show ?thesis by (simp add: cinv_def)
    next
      case (Inr res)
      with c Returned r0 show ?thesis by (simp add: cinv_def)
    qed
    with t Returned show ?thesis by simp
  next
    case Panicked
    with c show ?thesis by (simp add: cinv_def)
  qed
qed

text \<open>
  \<^bold>\<open>C7\<close>, a call with no keys. In every state of the program, a call whose key list is
  empty has passed nothing to its loader; if it has returned, it has returned the empty
  mapping and no error; three steps of its own bring it to that return, still with no loader
  invocation. And \<open>Do\<close> on the empty key list returns the empty mapping and no error,
  invokes no loader and leaves the group as it was, for every group and every loader.
\<close>

theorem C7_empty_keys:
  assumes "(s :: ('k, 'v) sys) = run nk z acts" and "t < length (calls s)" and "keys (calls s ! t) = []"
  shows "loads (calls s ! t) = [] \<and>
    (\<forall>r. pc (calls s ! t) = Returned r \<longrightarrow> r = Inr Map.empty) \<and>
    pc (calls (run nk z (acts @ [Step t, Step t, Step t])) ! t) = Returned (Inr Map.empty) \<and>
    loads (calls (run nk z (acts @ [Step t, Step t, Step t])) ! t) = [] \<and>
    (\<forall>(g :: ('k, 'v) Group) ld. Do z g [] ld = (Returns (Inr Map.empty), [], g))"
proof -
  let ?s' = "run nk z (acts @ [Step t, Step t, Step t])"
  from assms(1) have s: "sinv z s" by (simp add: sinv_run)
  have s': "sinv z ?s'" by (rule sinv_run)
  have 1: "loads (calls s ! t) = []"
    using loads_shape[OF s assms(2)] ents_of_keys(2)[OF s assms(2,3)] by simp
  have 3: "pc (calls ?s' ! t) = Returned (Inr Map.empty)"
    using empty_keys_return[OF s assms(2,3)] assms(1) by (simp add: run_append)
  have 2: "r = Inr Map.empty" if "pc (calls s ! t) = Returned r" for r
  proof -
    from that assms(2) have "calls (exec z [Step t, Step t, Step t] s) ! t = calls s ! t"
      by simp
    with empty_keys_return[OF s assms(2,3)] that show ?thesis by simp
  qed
  have len: "length (calls ?s') = length (calls s)"
    using assms(1) by (simp add: run_append length_calls_step del: act.simps)
  have "keys (calls ?s' ! t) = keys (calls s ! t)"
    using assms(1,2) by (simp add: run_append keys_step length_calls_step del: act.simps)
  with assms(3) have k': "keys (calls ?s' ! t) = []" by simp
  from len assms(2) have t': "t < length (calls ?s')" by simp
  have 4: "loads (calls ?s' ! t) = []"
    using loads_shape[OF s' t'] ents_of_keys(2)[OF s' t' k'] by simp
  have 5: "Do z g [] ld = (Returns (Inr Map.empty), [], g)" for g :: "('k, 'v) Group" and ld
    by (simp add: Do_def)
  from 1 2 3 4 5 show ?thesis by blast
qed

theorem C7_empty_keys_witness:
  "0 < length (calls (run no_nan [] [Call [] ld_ac])) \<and>
   keys (calls (run no_nan [] [Call [] ld_ac]) ! 0) = [] \<and>
   loads (calls (run no_nan [] [Call [] ld_ac]) ! 0) = [] \<and>
   pc (calls (run no_nan [] ([Call [] ld_ac] @ [Step 0, Step 0, Step 0])) ! 0) =
     Returned (Inr Map.empty) \<and>
   loads (calls (run no_nan [] ([Call [] ld_ac] @ [Step 0, Step 0, Step 0])) ! 0) = [] \<and>
   Do [] (grp (init no_nan)) [] ld_ac = (Returns (Inr Map.empty), [], grp (init no_nan))"
  using C7_empty_keys[OF refl, of 0 no_nan "[]" "[Call [] ld_ac]"]
  by (simp add: evals)

text \<open>
  \<^bold>\<open>C8\<close>, the loader invocations of a call. In every state of the program, the loader of
  a call has been invoked at most once; a key list it was passed is not empty and is the
  list of the keys the call registered itself (its misses); a call that has returned has
  invoked its loader exactly once if it registered any key, and not at all if it registered
  none; and every call can be scheduled on to its return.
\<close>

theorem C8_loader_invocations:
  assumes "s = run nk z acts" and "t < length (calls s)"
  shows "length (loads (calls s ! t)) \<le> 1 \<and>
    (\<forall>ks \<in> set (loads (calls s ! t)). ks \<noteq> [] \<and> ks = miss_keys s t) \<and>
    (\<forall>r. pc (calls s ! t) = Returned r \<longrightarrow>
       loads (calls s ! t) = (if missEnts (calls s ! t) = [] then [] else [miss_keys s t])) \<and>
    (\<exists>as r. pc (calls (run nk z (acts @ as)) ! t) = Returned r)"
proof -
  from assms(1) have s: "sinv z s" by (simp add: sinv_run)
  note l = loads_shape[OF s assms(2)]
  have 1: "length (loads (calls s ! t)) \<le> 1" using l by simp
  have 2: "\<forall>ks \<in> set (loads (calls s ! t)). ks \<noteq> [] \<and> ks = miss_keys s t"
    using l by (auto simp: miss_keys_def doLoad_keys_def split: if_splits)
  have 3: "\<forall>r. pc (calls s ! t) = Returned r \<longrightarrow>
       loads (calls s ! t) = (if missEnts (calls s ! t) = [] then [] else [miss_keys s t])"
    using l by simp
  from can_return[of t nk z acts] assms
  have 4: "\<exists>as r. pc (calls (run nk z (acts @ as)) ! t) = Returned r" by simp
  from 1 2 3 4 show ?thesis by blast
qed

theorem C8_loader_invocations_witness:
  "0 < length (calls (run no_nan [] sched_ac)) \<and>
   pc (calls (run no_nan [] sched_ac) ! 0) = Returned (Inr [1 \<mapsto> ''a'', 3 \<mapsto> ''c'']) \<and>
   loads (calls (run no_nan [] sched_ac) ! 0) = [[1, 2, 3]] \<and>
   miss_keys (run no_nan [] sched_ac) 0 = [1, 2, 3]"
  using C8_loader_invocations[OF refl, of 0 no_nan "[]" sched_ac]
  by (simp add: run_ac_calls run_ac_objs miss_keys_def doLoad_keys_def)

lemma first_failure_collect:
  "Do_collect g es res0 = Returns r \<Longrightarrow>
     first_failure g es = (case r of Inl e \<Rightarrow> Some e | Inr res \<Rightarrow> None)"
proof (induction es arbitrary: res0)
  case Nil
  then show ?case by auto
next
  case (Cons a es)
  show ?case
  proof (cases "Do_visit g a")
    case Wait_blocks
    with Cons.prems show ?thesis by simp
  next
    case Skip
    with Cons.prems have "Do_collect g es res0 = Returns r" by simp
    from Cons.IH[OF this] Skip show ?thesis by (auto simp: Do_visit_Skip)
  next
    case (Fail e)
    with Cons.prems have "r = Inl e" by simp
    with Fail show ?thesis by (simp add: Do_visit_Fail)
  next
    case (Put k v)
    with Cons.prems have "Do_collect g es (res0(k \<mapsto> v)) = Returns r" by simp
    from Cons.IH[OF this] Put show ?thesis by (simp add: Do_visit_Put)
  qed
qed

lemma call_facts:
  assumes s: "sinv z s" and t: "t < length (calls s)"
  shows "set (missEnts (calls s ! t)) \<subseteq> set (ents (calls s ! t))"
    and "\<forall>a \<in> set (ents (calls s ! t)). a < length (objs (grp s))"
    and "inj_on (\<lambda>a. key (objs (grp s) ! a)) (set (ents (calls s ! t)))"
    and "distinct (missEnts (calls s ! t))"
    and "pc (calls s ! t) \<noteq> AtLock \<longrightarrow> doLoad_keys (grp s) (ents (calls s ! t)) = keys (calls s ! t)"
    and "pc (calls s ! t) \<noteq> Panicked"
proof -
  from s t have c: "cinv z (grp s) (calls s ! t)" by (simp add: sinv_def)
  from c show "set (missEnts (calls s ! t)) \<subseteq> set (ents (calls s ! t))"
    by (simp add: cinv_def)
  from c show "\<forall>a \<in> set (ents (calls s ! t)). a < length (objs (grp s))"
    by (simp add: cinv_def)
  from c show "inj_on (\<lambda>a. key (objs (grp s) ! a)) (set (ents (calls s ! t)))"
    by (simp add: cinv_def)
  from c show "distinct (missEnts (calls s ! t))"
    by (simp add: cinv_def)
  from c show "pc (calls s ! t) \<noteq> AtLock \<longrightarrow>
      doLoad_keys (grp s) (ents (calls s ! t)) = keys (calls s ! t)"
    by (simp add: cinv_def)
  from c show "pc (calls s ! t) \<noteq> Panicked"
    by (simp add: cinv_def)
qed

lemma miss_content:
  assumes s: "sinv z s" and t: "t < length (calls s)" and p: "past (calls s ! t)"
    and a: "a \<in> set (missEnts (calls s ! t))"
  shows "objs (grp s) ! a = fanned z (loaded s t) (key (objs (grp s) ! a))"
proof -
  from s t have "cinv z (grp s) (calls s ! t)" by (simp add: sinv_def)
  with p a show ?thesis unfolding cinv_def loaded_def miss_keys_def by blast
qed

lemma done_creator:
  assumes s: "sinv z s" and a: "a < length (objs (grp s))" "wg (objs (grp s) ! a) = 0"
  shows "\<exists>u < length (calls s). a \<in> set (missEnts (calls s ! u)) \<and> past (calls s ! u)"
proof -
  from s a(1) obtain u where u: "u < length (calls s)" "a \<in> set (missEnts (calls s ! u))"
    unfolding sinv_def by blast
  from s u(1) have c: "cinv z (grp s) (calls s ! u)" by (simp add: sinv_def)
  have "past (calls s ! u)"
  proof (cases "pc (calls s ! u)")
    case AtLock
    with c u(2) show ?thesis by (simp add: cinv_def)
  next
    case AtLoad
    then have "owning (calls s ! u)" by (simp add: owning_def)
    with c u(2) have "wg (objs (grp s) ! a) \<noteq> 0" unfolding cinv_def by blast
    with a(2) show ?thesis by simp
  next
    case (AtFanout r)
    then have "owning (calls s ! u)" by (simp add: owning_def)
    with c u(2) have "wg (objs (grp s) ! a) \<noteq> 0" unfolding cinv_def by blast
    with a(2) show ?thesis by simp
  next
    case AtWait
    then show ?thesis by (simp add: past_def)
  next
    case (Returned r)
    then show ?thesis by (simp add: past_def)
  next
    case Panicked
    with c show ?thesis by (simp add: cinv_def)
  qed
  with u show ?thesis by blast
qed

lemma returned_result:
  assumes s: "sinv z s" and t: "t < length (calls s)"
    and pc: "pc (calls s ! t) = Returned (Inr res)"
  shows "res k = Some v \<longleftrightarrow> (\<exists>a \<in> set (ents (calls s ! t)). Do_visit (grp s) a = Put k v)"
proof
  from returned_collect[OF s t pc]
  have r: "Do_collect (grp s) (ents (calls s ! t)) Map.empty = Returns (Inr res)" .
  {
    assume "res k = Some v"
    from Do_collect_Inr_source[OF r this]
    show "\<exists>a \<in> set (ents (calls s ! t)). Do_visit (grp s) a = Put k v" by simp
  }
  {
    assume e: "\<exists>a \<in> set (ents (calls s ! t)). Do_visit (grp s) a = Put k v"
    then obtain a where a: "a \<in> set (ents (calls s ! t))" "Do_visit (grp s) a = Put k v" by blast
    have u: "\<forall>b \<in> set (ents (calls s ! t)). \<forall>v'. Do_visit (grp s) b = Put k v' \<longrightarrow> v' = v"
    proof (intro ballI allI impI)
      fix b v' assume b: "b \<in> set (ents (calls s ! t))" "Do_visit (grp s) b = Put k v'"
      from a(2) b(2) have "key (objs (grp s) ! a) = key (objs (grp s) ! b)"
        by (simp add: Do_visit_Put)
      with call_facts(3)[OF s t] a(1) b(1) have "a = b" by (simp add: inj_on_def)
      with a(2) b(2) show "v' = v" by simp
    qed
    from Do_collect_Inr_put[OF r u] e show "res k = Some v" by blast
  }
qed

lemma miss_key_entry:
  assumes "k \<in> set (miss_keys s t)"
  shows "\<exists>a \<in> set (missEnts (calls s ! t)). key (objs (grp s) ! a) = k"
  using assms by (auto simp: miss_keys_def doLoad_keys_def)

lemma key_in_keys:
  assumes s: "sinv z s" and t: "t < length (calls s)" and a: "a \<in> set (ents (calls s ! t))"
  shows "key (objs (grp s) ! a) \<in> set (keys (calls s ! t))"
proof -
  from s t have c: "cinv z (grp s) (calls s ! t)" by (simp add: sinv_def)
  from c a have "pc (calls s ! t) \<noteq> AtLock" by (auto simp: cinv_def)
  with call_facts(5)[OF s t] have "doLoad_keys (grp s) (ents (calls s ! t)) = keys (calls s ! t)"
    by simp
  moreover from a have "key (objs (grp s) ! a) \<in> set (doLoad_keys (grp s) (ents (calls s ! t)))"
    by (simp add: doLoad_keys_def)
  ultimately show ?thesis by simp
qed

lemma result_source:
  assumes s: "sinv z s" and t: "t < length (calls s)"
    and pc: "pc (calls s ! t) = Returned (Inr res)" and r: "res k = Some v"
  shows "k \<in> set (keys (calls s ! t))"
    and "\<exists>u < length (calls s). k \<in> set (miss_keys s u) \<and>
          snd (loaded s u) = None \<and> fst (loaded s u) k = Some v"
proof -
  from r returned_result[OF s t pc] obtain a where
    a: "a \<in> set (ents (calls s ! t))" "Do_visit (grp s) a = Put k v" by blast
  then have f: "wg (objs (grp s) ! a) = 0" "err (objs (grp s) ! a) = None"
    "key (objs (grp s) ! a) = k" "val (objs (grp s) ! a) = v" by (simp_all add: Do_visit_Put)
  from call_facts(2)[OF s t] a(1) have lt: "a < length (objs (grp s))" by blast
  from done_creator[OF s lt f(1)] obtain u where u: "u < length (calls s)"
    "a \<in> set (missEnts (calls s ! u))" "past (calls s ! u)" by blast
  from miss_content[OF s u(1,3,2)] f(3)
  have c: "objs (grp s) ! a = fanned z (loaded s u) k" by simp
  from c f(2,4) have "snd (loaded s u) = None \<and> fst (loaded s u) k = Some v"
    by (auto simp: fanned_def split: option.splits)
  moreover from u(2) f(3) have "k \<in> set (miss_keys s u)"
    by (auto simp: miss_keys_def doLoad_keys_def)
  ultimately show "\<exists>u < length (calls s). k \<in> set (miss_keys s u) \<and>
          snd (loaded s u) = None \<and> fst (loaded s u) k = Some v"
    using u(1) by blast
  from key_in_keys[OF s t a(1)] f(3) show "k \<in> set (keys (calls s ! t))" by simp
qed

lemma result_dom:
  assumes "sinv z s" and "t < length (calls s)" and "pc (calls s ! t) = Returned (Inr res)"
  shows "dom res \<subseteq> set (keys (calls s ! t))"
  using result_source(1)[OF assms] by (auto simp: dom_def)

text \<open>
  \<^bold>\<open>C10\<close>, the keys of a result. When a call has returned a mapping, every key of the
  mapping is one of the keys the call was given, and its value is the one that a loader
  invocation without error (of this call or of the call that registered the key)
  returned for it, the key being among those passed to that invocation. So what a loader
  returns for a key it was not passed reaches no result. Every call can be scheduled on to
  its return.
\<close>

theorem C10_result_keys_requested:
  assumes "s = run nk z acts" and "t < length (calls s)"
  shows "(\<forall>res. pc (calls s ! t) = Returned (Inr res) \<longrightarrow>
       dom res \<subseteq> set (keys (calls s ! t)) \<and>
       (\<forall>k v. res k = Some v \<longrightarrow>
          (\<exists>u < length (calls s). k \<in> set (miss_keys s u) \<and>
             snd (loaded s u) = None \<and> fst (loaded s u) k = Some v))) \<and>
    (\<exists>as r. pc (calls (run nk z (acts @ as)) ! t) = Returned r)"
proof -
  from assms(1) have s: "sinv z s" by (simp add: sinv_run)
  have 1: "dom res \<subseteq> set (keys (calls s ! t)) \<and>
       (\<forall>k v. res k = Some v \<longrightarrow>
          (\<exists>u < length (calls s). k \<in> set (miss_keys s u) \<and>
             snd (loaded s u) = None \<and> fst (loaded s u) k = Some v))"
    if r: "pc (calls s ! t) = Returned (Inr res)" for res
    using result_dom[OF s assms(2) r] result_source(2)[OF s assms(2) r] by blast
  from can_return[of t nk z acts] assms
  have 2: "\<exists>as r. pc (calls (run nk z (acts @ as)) ! t) = Returned r" by simp
  from 1 2 show ?thesis by blast
qed

theorem C10_result_keys_requested_witness:
  "0 < length (calls (run no_nan [] sched_ac)) \<and>
   pc (calls (run no_nan [] sched_ac) ! 0) = Returned (Inr [1 \<mapsto> ''a'', 3 \<mapsto> ''c'']) \<and>
   keys (calls (run no_nan [] sched_ac) ! 0) = [1, 2, 3] \<and>
   dom [1 \<mapsto> ''a'', 3 \<mapsto> ''c''] \<subseteq> set (keys (calls (run no_nan [] sched_ac) ! 0))"
proof -
  have h1: "0 < length (calls (run no_nan [] sched_ac))" by (simp add: run_ac_calls)
  have h2: "pc (calls (run no_nan [] sched_ac) ! 0) = Returned (Inr [1 \<mapsto> ''a'', 3 \<mapsto> ''c''])"
    by (simp add: run_ac_calls)
  note th = C10_result_keys_requested[OF refl h1]
  from th[THEN conjunct1, rule_format, OF h2, THEN conjunct1] h1 h2 show ?thesis
    by (simp add: run_ac_calls)
qed




lemma run_down_objs:
  "objs (grp (run no_nan [] sched_down)) =
     [\<lparr>wg = 0, key = 1, val = [], err = Some (ErrNew ''backend unavailable'')\<rparr>,
      \<lparr>wg = 0, key = 2, val = [], err = Some (ErrNew ''backend unavailable'')\<rparr>]"
  by (simp add: sched_down_def evals ld_down_def)



lemma run_two_objs:
  "objs (grp (run no_nan [] sched_two)) =
     [\<lparr>wg = 0, key = 1, val = [], err = Some (ErrNew ''A'')\<rparr>,
      \<lparr>wg = 0, key = 2, val = [], err = Some (ErrNew ''B'')\<rparr>]"
  by (simp add: sched_two_def evals ld_A_def ld_B_def)

lemma run_early_calls:
  "calls (run no_nan [] sched_early) =
     [\<lparr>keys = [2], load = ld_ac, ents = [0], missEnts = [0], rest = [],
       result = Map.empty, loads = [], pc = AtLoad\<rparr>,
      \<lparr>keys = [1, 2], load = ld_B, ents = [1, 0], missEnts = [1], rest = [1, 0],
       result = Map.empty, loads = [[1]], pc = Returned (Inl (ErrNew ''B''))\<rparr>]"
  by (simp add: sched_early_def evals ld_ac_def ld_B_def)

lemma run_early_objs:
  "objs (grp (run no_nan [] sched_early)) =
     [\<lparr>wg = 1, key = 2, val = [], err = None\<rparr>,
      \<lparr>wg = 0, key = 1, val = [], err = Some (ErrNew ''B'')\<rparr>]"
  by (simp add: sched_early_def evals ld_ac_def ld_B_def)

lemma own_loader_entries:
  assumes s: "sinv z s" and t: "t < length (calls s)"
    and l: "loads (calls s ! t) = [ks]" and p: "past (calls s ! t)"
  shows "ks = miss_keys s t" "missEnts (calls s ! t) \<noteq> []"
    "\<forall>a \<in> set (missEnts (calls s ! t)).
       objs (grp s) ! a = fanned z (load (calls s ! t) ks) (key (objs (grp s) ! a))"
proof -
  from loads_shape[OF s t] l show ks: "ks = miss_keys s t" and "missEnts (calls s ! t) \<noteq> []"
    by (auto split: if_splits)
  show "\<forall>a \<in> set (missEnts (calls s ! t)).
       objs (grp s) ! a = fanned z (load (calls s ! t) ks) (key (objs (grp s) ! a))"
    using miss_content[OF s t p] ks by (simp add: loaded_def)
qed

lemma fanned_err_ok: "err (fanned z (vals, None) k) = Some e \<longleftrightarrow> vals k = None \<and> e = errResultNotFound"
  by (auto simp: fanned_def split: option.splits)


lemma returned_past: "pc c = Returned r \<Longrightarrow> past c"
  by (simp add: past_def)

text \<open>
  \<^bold>\<open>C4\<close>, an omitted key is absent. Let the loader of call \<open>t\<close> have been passed the
  keys \<open>ks\<close> and have returned, without error, a mapping with no value for a key \<open>k\<close>
  of \<open>ks\<close>. When call \<open>t\<close> has returned: the entry of \<open>k\<close> carries the marker
  \<open>errResultNotFound\<close>; a mapping the call returns has no value for \<open>k\<close>; an error the
  call returns does not match the marker and is the error of an entry that another call
  registered, so it is never due to the omission; and a call that registered all its
  entries itself returns a mapping. Call \<open>t\<close> can be scheduled on to its return.
\<close>

theorem C4_omitted_key_absent:
  assumes "s = run nk z acts" and "t < length (calls s)"
    and "loads (calls s ! t) = [ks]" and "load (calls s ! t) ks = (vals, None)"
    and "k \<in> set ks" and "vals k = None"
  shows "(\<forall>r. pc (calls s ! t) = Returned r \<longrightarrow>
       (\<exists>a \<in> set (missEnts (calls s ! t)).
          key (objs (grp s) ! a) = k \<and> err (objs (grp s) ! a) = Some errResultNotFound) \<and>
       (\<forall>res. r = Inr res \<longrightarrow> res k = None) \<and>
       (\<forall>e. r = Inl e \<longrightarrow> \<not> errors_Is e errResultNotFound \<and>
          (\<exists>b \<in> set (ents (calls s ! t)) - set (missEnts (calls s ! t)).
             err (objs (grp s) ! b) = Some e)) \<and>
       (set (ents (calls s ! t)) \<subseteq> set (missEnts (calls s ! t)) \<longrightarrow> (\<exists>res. r = Inr res))) \<and>
    (\<exists>as r. pc (calls (run nk z (acts @ as)) ! t) = Returned r)"
proof -
  let ?c = "calls s ! t" and ?g = "grp s"
  from assms(1) have s: "sinv z s" by (simp add: sinv_run)
  have main: "(\<exists>a \<in> set (missEnts ?c).
          key (objs ?g ! a) = k \<and> err (objs ?g ! a) = Some errResultNotFound) \<and>
       (\<forall>res. r = Inr res \<longrightarrow> res k = None) \<and>
       (\<forall>e. r = Inl e \<longrightarrow> \<not> errors_Is e errResultNotFound \<and>
          (\<exists>b \<in> set (ents ?c) - set (missEnts ?c). err (objs ?g ! b) = Some e)) \<and>
       (set (ents ?c) \<subseteq> set (missEnts ?c) \<longrightarrow> (\<exists>res. r = Inr res))"
    if pcr: "pc ?c = Returned r" for r
  proof -
    note o = own_loader_entries[OF s assms(2,3) returned_past[OF pcr]]
    from assms(5) o(1) miss_key_entry[of k s t] obtain a where
      a: "a \<in> set (missEnts ?c)" "key (objs ?g ! a) = k" by blast
    from o(3) a(1) have "objs ?g ! a = fanned z (load ?c ks) (key (objs ?g ! a))" by blast
    with a(2) assms(4,6)
    have ea: "objs ?g ! a = \<lparr>wg = 0, key = k, val = z, err = Some errResultNotFound\<rparr>"
      by (simp add: fanned_def)
    from a(1) call_facts(1)[OF s assms(2)] have ae: "a \<in> set (ents ?c)" by blast
    have 1: "\<exists>a \<in> set (missEnts ?c). key (objs ?g ! a) = k \<and> err (objs ?g ! a) = Some errResultNotFound"
    proof (rule bexI[OF _ a(1)])
      from ea a(2) show "key (objs ?g ! a) = k \<and> err (objs ?g ! a) = Some errResultNotFound"
        by simp
    qed
    have 2: "res k = None" if r: "r = Inr res" for res
    proof (rule ccontr)
      assume "res k \<noteq> None"
      then obtain v where "res k = Some v" by blast
      with returned_result[OF s assms(2)] pcr r obtain b where
        b: "b \<in> set (ents ?c)" "Do_visit ?g b = Put k v" by blast
      then have "key (objs ?g ! b) = key (objs ?g ! a)" using a(2) by (simp add: Do_visit_Put)
      with call_facts(3)[OF s assms(2)] ae b(1) have "b = a" by (simp add: inj_on_def)
      with b(2) ea show False by (simp add: Do_visit_Put)
    qed
    have 3: "\<not> errors_Is e errResultNotFound \<and>
         (\<exists>b \<in> set (ents ?c) - set (missEnts ?c). err (objs ?g ! b) = Some e)"
      if r: "r = Inl e" for e
    proof -
      from returned_collect[OF s assms(2) pcr] r
      have "Do_collect ?g (ents ?c) Map.empty = Returns (Inl e)" by simp
      from Do_collect_Inl_source[OF this] obtain b where
        b: "b \<in> set (ents ?c)" "Do_visit ?g b = Fail e" by blast
      then have f: "err (objs ?g ! b) = Some e" "\<not> errors_Is e errResultNotFound"
        by (simp_all add: Do_visit_Fail)
      have "b \<notin> set (missEnts ?c)"
      proof
        assume "b \<in> set (missEnts ?c)"
        with o(3) assms(4) have "objs ?g ! b = fanned z (vals, None) (key (objs ?g ! b))" by simp
        then have "err (objs ?g ! b) = err (fanned z (vals, None) (key (objs ?g ! b)))" by simp
        with f(1) have "e = errResultNotFound" by (simp add: fanned_err_ok)
        with f(2) show False by simp
      qed
      with b(1) f show ?thesis by blast
    qed
    have 4: "\<exists>res. r = Inr res" if "set (ents ?c) \<subseteq> set (missEnts ?c)"
    proof (cases r)
      case (Inl e)
      from 3[OF this] that show ?thesis by blast
    next
      case (Inr res)
      then show ?thesis by blast
    qed
    from 1 2 3 4 show ?thesis by blast
  qed
  from can_return[of t nk z acts] assms(1,2)
  have live: "\<exists>as r. pc (calls (run nk z (acts @ as)) ! t) = Returned r" by simp
  from main live show ?thesis by blast
qed

theorem C4_omitted_key_absent_witness:
  "0 < length (calls (run no_nan [] sched_ac)) \<and>
   loads (calls (run no_nan [] sched_ac) ! 0) = [[1, 2, 3]] \<and>
   load (calls (run no_nan [] sched_ac) ! 0) [1, 2, 3] = ([1 \<mapsto> ''a'', 3 \<mapsto> ''c''], None) \<and>
   (2::nat) \<in> set [1, 2, 3] \<and> [1 \<mapsto> ''a'', 3 \<mapsto> ''c''] (2::nat) = None \<and>
   pc (calls (run no_nan [] sched_ac) ! 0) = Returned (Inr [1 \<mapsto> ''a'', 3 \<mapsto> ''c'']) \<and>
   err (objs (grp (run no_nan [] sched_ac)) ! 1) = Some errResultNotFound"
proof -
  have h1: "0 < length (calls (run no_nan [] sched_ac))" by (simp add: run_ac_calls)
  have h2: "loads (calls (run no_nan [] sched_ac) ! 0) = [[1, 2, 3]]" by (simp add: run_ac_calls)
  have h3: "load (calls (run no_nan [] sched_ac) ! 0) [1, 2, 3] = ([1 \<mapsto> ''a'', 3 \<mapsto> ''c''], None)"
    by (simp add: run_ac_calls ld_ac_def)
  have h4: "(2::nat) \<in> set [1, 2, 3]" by simp
  have h5: "[1 \<mapsto> ''a'', 3 \<mapsto> ''c''] (2::nat) = None" by simp
  have h6: "pc (calls (run no_nan [] sched_ac) ! 0) = Returned (Inr [1 \<mapsto> ''a'', 3 \<mapsto> ''c''])"
    by (simp add: run_ac_calls)
  note th = C4_omitted_key_absent[OF refl h1 h2 h3 h4 h5]
  from th[THEN conjunct1, rule_format, OF h6, THEN conjunct2, THEN conjunct1, rule_format, OF refl]
  have "[1 \<mapsto> ''a'', 3 \<mapsto> ''c''] (2::nat) = None" .
  with h1 h2 h3 h4 h6 show ?thesis by (simp add: run_ac_objs)
qed

text \<open>
  \<^bold>\<open>C6\<close>, the first failure in input order. The entries of a call are in the order of
  its keys. When a call has returned an error \<open>e\<close> (and so no mapping), \<open>e\<close> is the
  error of the entry at some position \<open>i\<close>, it does not match the marker, every error
  of an entry before \<open>i\<close> matches the marker, and the loop has stopped at \<open>i\<close>: the
  entries from \<open>i\<close> on are the ones not visited. When some entry of a call that has
  returned has an error that does not match the marker, the call has returned an error. So
  the error a call returns, if any, is \<open>first_failure\<close> of its entries. Every call can
  be scheduled on to its return.
\<close>

theorem C6_first_failure_in_input_order:
  assumes "s = run nk z acts" and "t < length (calls s)"
  shows "(\<forall>r. pc (calls s ! t) = Returned r \<longrightarrow>
       (\<forall>e. r = Inl e \<longrightarrow>
          (\<exists>i < length (ents (calls s ! t)).
             err (objs (grp s) ! (ents (calls s ! t) ! i)) = Some e \<and>
             \<not> errors_Is e errResultNotFound \<and>
             (\<forall>j < i. \<forall>e'. err (objs (grp s) ! (ents (calls s ! t) ! j)) = Some e' \<longrightarrow>
                errors_Is e' errResultNotFound) \<and>
             rest (calls s ! t) = drop i (ents (calls s ! t)))) \<and>
       ((\<exists>a \<in> set (ents (calls s ! t)). \<exists>e.
           err (objs (grp s) ! a) = Some e \<and> \<not> errors_Is e errResultNotFound) \<longrightarrow>
          (\<exists>e. r = Inl e)) \<and>
       first_failure (grp s) (ents (calls s ! t)) =
         (case r of Inl e \<Rightarrow> Some e | Inr res \<Rightarrow> None)) \<and>
    (\<exists>as r. pc (calls (run nk z (acts @ as)) ! t) = Returned r)"
proof -
  let ?c = "calls s ! t" and ?g = "grp s"
  from assms(1) have s: "sinv z s" by (simp add: sinv_run)
  from s assms(2) have c: "cinv z ?g ?c" by (simp add: sinv_def)
  have main: "(\<forall>e. r = Inl e \<longrightarrow>
          (\<exists>i < length (ents ?c).
             err (objs ?g ! (ents ?c ! i)) = Some e \<and> \<not> errors_Is e errResultNotFound \<and>
             (\<forall>j < i. \<forall>e'. err (objs ?g ! (ents ?c ! j)) = Some e' \<longrightarrow>
                errors_Is e' errResultNotFound) \<and>
             rest ?c = drop i (ents ?c))) \<and>
       ((\<exists>a \<in> set (ents ?c). \<exists>e.
           err (objs ?g ! a) = Some e \<and> \<not> errors_Is e errResultNotFound) \<longrightarrow>
          (\<exists>e. r = Inl e)) \<and>
       first_failure ?g (ents ?c) = (case r of Inl e \<Rightarrow> Some e | Inr res \<Rightarrow> None)"
    if pcr: "pc ?c = Returned r" for r
  proof -
    from c returned_past[OF pcr] obtain pre where p: "ents ?c = pre @ rest ?c"
      "Do_collect ?g pre Map.empty = Returns (Inr (result ?c))" unfolding cinv_def by blast
    note rc = returned_collect[OF s assms(2) pcr]
    have 1: "\<exists>i < length (ents ?c).
            err (objs ?g ! (ents ?c ! i)) = Some e \<and> \<not> errors_Is e errResultNotFound \<and>
            (\<forall>j < i. \<forall>e'. err (objs ?g ! (ents ?c ! j)) = Some e' \<longrightarrow>
               errors_Is e' errResultNotFound) \<and>
            rest ?c = drop i (ents ?c)"
      if r: "r = Inl e" for e
    proof -
      from c pcr r have f: "rest ?c \<noteq> []" "Do_visit ?g (hd (rest ?c)) = Fail e"
        by (simp_all add: cinv_def)
      let ?i = "length pre"
      from f(1) p(1) have i: "?i < length (ents ?c)" by simp
      from f(1) p(1) have hd: "ents ?c ! ?i = hd (rest ?c)" by (simp add: nth_append hd_conv_nth)
      have before: "errors_Is e' errResultNotFound"
        if j: "j < ?i" "err (objs ?g ! (ents ?c ! j)) = Some e'" for j e'
      proof -
        from j(1) p(1) have "ents ?c ! j = pre ! j" "pre ! j \<in> set pre" by (simp_all add: nth_append)
        with Do_collect_Inr_visit[OF p(2), of "pre ! j"] j(2) show ?thesis
          by (auto simp: Do_visit_Skip Do_visit_Put)
      qed
      from p(1) have "rest ?c = drop ?i (ents ?c)" by simp
      with i hd f(2) before show ?thesis by (auto simp: Do_visit_Fail)
    qed
    have 2: "\<exists>e. r = Inl e"
      if "\<exists>a \<in> set (ents ?c). \<exists>e. err (objs ?g ! a) = Some e \<and> \<not> errors_Is e errResultNotFound"
    proof (cases r)
      case (Inl e)
      then show ?thesis by blast
    next
      case (Inr res)
      from that obtain a e where a: "a \<in> set (ents ?c)" "err (objs ?g ! a) = Some e"
        "\<not> errors_Is e errResultNotFound" by blast
      from rc Inr have "Do_collect ?g (ents ?c) Map.empty = Returns (Inr res)" by simp
      from Do_collect_Inr_visit[OF this a(1)] a(2,3) show ?thesis
        by (auto simp: Do_visit_Skip Do_visit_Put)
    qed
    from 1 2 first_failure_collect[OF rc] show ?thesis by blast
  qed
  from can_return[of t nk z acts] assms(1,2)
  have live: "\<exists>as r. pc (calls (run nk z (acts @ as)) ! t) = Returned r" by simp
  from main live show ?thesis by blast
qed

theorem C6_first_failure_in_input_order_witness:
  "1 < length (calls (run no_nan [] sched_early)) \<and>
   pc (calls (run no_nan [] sched_early) ! 1) = Returned (Inl (ErrNew ''B'')) \<and>
   ents (calls (run no_nan [] sched_early) ! 1) = [1, 0] \<and>
   rest (calls (run no_nan [] sched_early) ! 1) = [1, 0] \<and>
   err (objs (grp (run no_nan [] sched_early)) ! 1) = Some (ErrNew ''B'') \<and>
   wg (objs (grp (run no_nan [] sched_early)) ! 0) = 1 \<and>
   first_failure (grp (run no_nan [] sched_early)) (ents (calls (run no_nan [] sched_early) ! 1)) =
     Some (ErrNew ''B'')"
proof -
  have h1: "1 < length (calls (run no_nan [] sched_early))" by (simp add: run_early_calls)
  have h2: "pc (calls (run no_nan [] sched_early) ! 1) = Returned (Inl (ErrNew ''B''))"
    by (simp add: run_early_calls)
  note th = C6_first_failure_in_input_order[OF refl h1]
  from th[THEN conjunct1, rule_format, OF h2, THEN conjunct2, THEN conjunct2]
  have "first_failure (grp (run no_nan [] sched_early)) (ents (calls (run no_nan [] sched_early) ! 1)) =
     Some (ErrNew ''B'')" by simp
  with h1 h2 show ?thesis by (simp add: run_early_calls run_early_objs)
qed

section \<open>The registry\<close>

lemma run_nan_calls:
  "calls (run nan0 [] sched_nan) =
     [\<lparr>keys = [0], load = ld_ac, ents = [0], missEnts = [0], rest = [],
       result = Map.empty, loads = [[0]], pc = Returned (Inr Map.empty)\<rparr>]"
  by (simp add: sched_nan_def nan0_def evals ld_ac_def)

lemma run_nan_objs:
  "objs (grp (run nan0 [] sched_nan)) =
     [\<lparr>wg = 0, key = 0, val = [], err = Some errResultNotFound\<rparr>]"
  by (simp add: sched_nan_def nan0_def evals ld_ac_def)

lemma run_nan_m: "m (grp (run nan0 [] sched_nan)) 0 = Some 0"
  by (simp add: sched_nan_def nan0_def evals ld_ac_def)

lemma setCallResult_effect:
  assumes "setCallResult g e v = Some g'" and "e < length (objs g)"
  shows "m g' = map_delete g (key (objs g ! e)) \<and> wg (objs g' ! e) = wg (objs g ! e) - 1 \<and>
    val (objs g' ! e) = v \<and> nan g' = nan g"
  using assms by (auto simp: setCallResult_def wg_Done_def split: if_splits)

lemma setCallErr_effect:
  assumes "setCallErr g e er = Some g'" and "e < length (objs g)"
  shows "m g' = map_delete g (key (objs g ! e)) \<and> wg (objs g' ! e) = wg (objs g ! e) - 1 \<and>
    err (objs g' ! e) = Some er \<and> nan g' = nan g"
  using assms by (auto simp: setCallErr_def wg_Done_def split: if_splits)

lemma act_nan:
  assumes s: "sinv z s"
  shows "nan (grp (act z b s)) = nan (grp s)"
proof (cases b)
  case (Call ks ld)
  then show ?thesis by simp
next
  case (Step t)
  show ?thesis
  proof (cases "t < length (calls s)")
    case False
    with Step show ?thesis by simp
  next
    case t: True
    show ?thesis
    proof (cases "pc (calls s ! t)")
      case AtLock
      obtain E M g' where r: "reg z (keys (calls s ! t)) (grp s) = (E, M, g')"
        by (cases "reg z (keys (calls s ! t)) (grp s)")
      from reg_nan[OF r] r t AtLock Step show ?thesis by (simp add: Do_register_reg)
    next
      case (AtFanout r)
      from step_fanout[OF s t AtFanout] obtain g' where
        f: "doLoad_finish (grp s) (missEnts (calls s ! t)) r = Some g'" by blast
      let ?ms = "missEnts (calls s ! t)"
      from s have g: "ginv z (grp s)" by (simp add: sinv_def)
      from s t have c: "cinv z (grp s) (calls s ! t)" by (simp add: sinv_def)
      from AtFanout have "owning (calls s ! t)" by (simp add: owning_def)
      with c have pend: "\<forall>a \<in> set ?ms. wg (objs (grp s) ! a) \<noteq> 0" unfolding cinv_def by blast
      from call_facts(1,2)[OF s t] pend
      have p: "\<forall>a \<in> set ?ms. a < length (objs (grp s)) \<and> wg (objs (grp s) ! a) \<noteq> 0" by blast
      from doLoad_finish_spec[OF g call_facts(4)[OF s t] p, of r] f
      have "fan_post z r ?ms (grp s) g'" by simp
      then have "nan g' = nan (grp s)" by (simp add: fan_post_def)
      with f t AtFanout Step show ?thesis by simp
    qed (use t Step in \<open>auto simp: Let_def split: list.splits visit.splits\<close>)
  qed
qed

lemma exec_nan: "sinv z s \<Longrightarrow> nan (grp (exec z as s)) = nan (grp s)"
proof (induction as arbitrary: s)
  case Nil
  then show ?case by simp
next
  case (Cons a as)
  from Cons.IH[OF sinv_act[OF Cons.prems], of a] act_nan[OF Cons.prems, of a]
  show ?case by (simp del: act.simps)
qed

lemma run_nan: "nan (grp (run nk z acts)) = nk"
  using exec_nan[OF sinv_init, of z acts nk] by (simp add: run_def init_def)

lemma registry_iff_pending:
  assumes "ginv z g" and "\<not> nan g k"
  shows "m g k = Some a \<longleftrightarrow> a < length (objs g) \<and> key (objs g ! a) = k \<and> wg (objs g ! a) \<noteq> 0"
proof
  assume "m g k = Some a"
  with assms show "a < length (objs g) \<and> key (objs g ! a) = k \<and> wg (objs g ! a) \<noteq> 0"
    unfolding ginv_def by blast
next
  assume "a < length (objs g) \<and> key (objs g ! a) = k \<and> wg (objs g ! a) \<noteq> 0"
  with pendingD(1)[OF assms(1), of a] show "m g k = Some a" by auto
qed

lemma registry_iff_owner:
  assumes s: "sinv z s" and n: "\<not> nan (grp s) k"
  shows "k \<in> dom (m (grp s)) \<longleftrightarrow>
    (\<exists>u < length (calls s). owning (calls s ! u) \<and> k \<in> set (miss_keys s u))"
proof
  from s have g: "ginv z (grp s)" by (simp add: sinv_def)
  {
    assume "k \<in> dom (m (grp s))"
    then obtain a where "m (grp s) k = Some a" by blast
    with registry_iff_pending[OF g n] have a: "a < length (objs (grp s))"
      "key (objs (grp s) ! a) = k" "wg (objs (grp s) ! a) \<noteq> 0" by blast+
    from pending_owner[OF s a(1,3)] obtain u where u: "u < length (calls s)"
      "owning (calls s ! u)" "a \<in> set (missEnts (calls s ! u))" by blast
    from u(3) a(2) have "k \<in> set (miss_keys s u)" by (auto simp: miss_keys_def doLoad_keys_def)
    with u show "\<exists>u < length (calls s). owning (calls s ! u) \<and> k \<in> set (miss_keys s u)" by blast
  }
  {
    assume "\<exists>u < length (calls s). owning (calls s ! u) \<and> k \<in> set (miss_keys s u)"
    then obtain u where u: "u < length (calls s)" "owning (calls s ! u)"
      "k \<in> set (miss_keys s u)" by blast
    from miss_key_entry[OF u(3)] obtain a where a: "a \<in> set (missEnts (calls s ! u))"
      "key (objs (grp s) ! a) = k" by blast
    from s u(1) have c: "cinv z (grp s) (calls s ! u)" by (simp add: sinv_def)
    from c u(2) a(1) have w: "wg (objs (grp s) ! a) \<noteq> 0" unfolding cinv_def by blast
    from call_facts(1,2)[OF s u(1)] a(1) have "a < length (objs (grp s))" by blast
    with registry_iff_pending[OF g n, of a] a(2) w show "k \<in> dom (m (grp s))" by blast
  }
qed

lemma all_returned_empty:
  assumes s: "sinv z s" and r: "\<forall>i < length (calls s). \<exists>r. pc (calls s ! i) = Returned r"
    and n: "\<not> nan (grp s) k"
  shows "m (grp s) k = None"
proof -
  have "k \<notin> dom (m (grp s))"
  proof
    assume "k \<in> dom (m (grp s))"
    with registry_iff_owner[OF s n] obtain u where "u < length (calls s)" "owning (calls s ! u)"
      by blast
    with r show False by (auto simp: owning_def)
  qed
  then show ?thesis by blast
qed

lemma fanout_step_effect:
  assumes s: "sinv z s" and t: "t < length (calls s)" and pc: "pc (calls s ! t) = AtFanout r"
  shows "pc (calls (act z (Step t) s) ! t) = AtWait"
    and "\<forall>a \<in> set (missEnts (calls s ! t)).
      wg (objs (grp (act z (Step t) s)) ! a) = 0 \<and>
      m (grp (act z (Step t) s)) (key (objs (grp s) ! a)) =
        (if nan (grp s) (key (objs (grp s) ! a)) then Some a else None)"
proof -
  let ?ms = "missEnts (calls s ! t)"
  from s have g: "ginv z (grp s)" by (simp add: sinv_def)
  from s t have c: "cinv z (grp s) (calls s ! t)" by (simp add: sinv_def)
  from pc have "owning (calls s ! t)" by (simp add: owning_def)
  with c have pend: "\<forall>a \<in> set ?ms. wg (objs (grp s) ! a) \<noteq> 0" unfolding cinv_def by blast
  from call_facts(1,2)[OF s t]
  have lt: "\<forall>a \<in> set ?ms. a < length (objs (grp s))" by blast
  with pend have p: "\<forall>a \<in> set ?ms. a < length (objs (grp s)) \<and> wg (objs (grp s) ! a) \<noteq> 0"
    by blast
  from doLoad_finish_spec[OF g call_facts(4)[OF s t] p, of r] obtain g' where
    f: "doLoad_finish (grp s) ?ms r = Some g'" and post: "fan_post z r ?ms (grp s) g'"
    by blast
  from f t pc have g': "grp (act z (Step t) s) = g'" by simp
  from f t pc show "pc (calls (act z (Step t) s) ! t) = AtWait" by simp
  show "\<forall>a \<in> set ?ms. wg (objs (grp (act z (Step t) s)) ! a) = 0 \<and>
      m (grp (act z (Step t) s)) (key (objs (grp s) ! a)) =
        (if nan (grp s) (key (objs (grp s) ! a)) then Some a else None)"
  proof
    fix a assume a: "a \<in> set ?ms"
    with lt have l: "a < length (objs (grp s))" by blast
    with post a have "objs g' ! a = fanned z r (key (objs (grp s) ! a))"
      unfolding fan_post_def by simp
    then have "wg (objs g' ! a) = wg (fanned z r (key (objs (grp s) ! a)))" by simp
    then have w: "wg (objs g' ! a) = 0" by simp
    from a pend have "wg (objs (grp s) ! a) \<noteq> 0" by blast
    from pendingD(1)[OF g l this] have r: "m (grp s) (key (objs (grp s) ! a)) = Some a" .
    from post have "m g' (key (objs (grp s) ! a)) =
      (if key (objs (grp s) ! a) \<in> (\<lambda>b. key (objs (grp s) ! b)) ` set ?ms \<and>
          \<not> nan (grp s) (key (objs (grp s) ! a))
       then None else m (grp s) (key (objs (grp s) ! a)))"
      unfolding fan_post_def by blast
    with a r have "m g' (key (objs (grp s) ! a)) =
      (if nan (grp s) (key (objs (grp s) ! a)) then Some a else None)" by auto
    with w show "wg (objs (grp (act z (Step t) s)) ! a) = 0 \<and>
      m (grp (act z (Step t) s)) (key (objs (grp s) ! a)) =
        (if nan (grp s) (key (objs (grp s) ! a)) then Some a else None)"
      unfolding g' by simp
  qed
qed

text \<open>
  For the keys that are equal to themselves, the registry holds the pending loads: such a
  key is registered exactly while its entry is not completed, that is while the call that
  registered it has not been through its second critical section; and when every call has
  returned, no such key is registered.
\<close>

lemma registry_of_reflexive_keys:
  assumes "s = run nk z acts" and "\<not> nk k"
  shows "(m (grp s) k = Some a \<longleftrightarrow>
        a < length (objs (grp s)) \<and> key (objs (grp s) ! a) = k \<and> wg (objs (grp s) ! a) \<noteq> 0) \<and>
    (k \<in> dom (m (grp s)) \<longleftrightarrow>
        (\<exists>u < length (calls s).
           (pc (calls s ! u) = AtLoad \<or> (\<exists>r. pc (calls s ! u) = AtFanout r)) \<and>
           k \<in> set (miss_keys s u))) \<and>
    ((\<forall>i < length (calls s). \<exists>r. pc (calls s ! i) = Returned r) \<longrightarrow> m (grp s) k = None)"
proof -
  from assms(1) have s: "sinv z s" by (simp add: sinv_run)
  from s have g: "ginv z (grp s)" by (simp add: sinv_def)
  from assms have n: "\<not> nan (grp s) k" by (simp add: run_nan)
  have o: "owning c \<longleftrightarrow> pc c = AtLoad \<or> (\<exists>r. pc c = AtFanout r)" for c :: "('a, 'b) call"
    by (cases "pc c") (simp_all add: owning_def)
  have 1: "m (grp s) k = Some a \<longleftrightarrow>
        a < length (objs (grp s)) \<and> key (objs (grp s) ! a) = k \<and> wg (objs (grp s) ! a) \<noteq> 0"
    by (rule registry_iff_pending[OF g n])
  have 2: "k \<in> dom (m (grp s)) \<longleftrightarrow>
        (\<exists>u < length (calls s).
           (pc (calls s ! u) = AtLoad \<or> (\<exists>r. pc (calls s ! u) = AtFanout r)) \<and>
           k \<in> set (miss_keys s u))"
    using registry_iff_owner[OF s n] by (simp add: o)
  have 3: "\<forall>i < length (calls s). \<exists>r. pc (calls s ! i) = Returned r \<Longrightarrow> m (grp s) k = None"
    using all_returned_empty[OF s _ n] by blast
  from 1 2 3 show ?thesis by blast
qed

text \<open>
  A key that is not equal to itself stays in the registry for ever.
\<close>

lemma act_keeps_nan_key:
  assumes s: "sinv z s" and k: "m (grp s) k = Some a" "nan (grp s) k"
  shows "m (grp (act z b s)) k = Some a"
proof (cases b)
  case (Call ks ld)
  with k show ?thesis by simp
next
  case (Step t)
  show ?thesis
  proof (cases "t < length (calls s)")
    case False
    with Step k show ?thesis by simp
  next
    case t: True
    show ?thesis
    proof (cases "pc (calls s ! t)")
      case AtLock
      obtain E M g' where r: "reg z (keys (calls s ! t)) (grp s) = (E, M, g')"
        by (cases "reg z (keys (calls s ! t)) (grp s)")
      from reg_mono[OF r k(1)] r t AtLock Step show ?thesis by (simp add: Do_register_reg)
    next
      case (AtFanout r)
      let ?ms = "missEnts (calls s ! t)"
      from s have g: "ginv z (grp s)" by (simp add: sinv_def)
      from s t have c: "cinv z (grp s) (calls s ! t)" by (simp add: sinv_def)
      from AtFanout have "owning (calls s ! t)" by (simp add: owning_def)
      with c have pend: "\<forall>a \<in> set ?ms. wg (objs (grp s) ! a) \<noteq> 0" unfolding cinv_def by blast
      from call_facts(1,2)[OF s t] pend
      have p: "\<forall>a \<in> set ?ms. a < length (objs (grp s)) \<and> wg (objs (grp s) ! a) \<noteq> 0" by blast
      from doLoad_finish_spec[OF g call_facts(4)[OF s t] p, of r] obtain g' where
        f: "doLoad_finish (grp s) ?ms r = Some g'" and post: "fan_post z r ?ms (grp s) g'"
        by blast
      from post k have "m g' k = Some a" unfolding fan_post_def by simp
      with f t AtFanout Step show ?thesis by simp
    qed (use t Step k in \<open>auto simp: Let_def split: list.splits visit.splits\<close>)
  qed
qed

lemma nan_key_stays_registered:
  assumes "s = run nk z acts" and "m (grp s) k = Some a" and "nk k"
  shows "m (grp (run nk z (acts @ later))) k = Some a"
proof -
  have "sinv z s \<Longrightarrow> m (grp s) k = Some a \<Longrightarrow> nan (grp s) k \<Longrightarrow>
      m (grp (exec z later s)) k = Some a" for s :: "('a, 'b) sys"
  proof (induction later arbitrary: s)
    case Nil
    then show ?case by simp
  next
    case (Cons b bs)
    from Cons.prems(3) act_nan[OF Cons.prems(1), of b] have "nan (grp (act z b s)) k" by simp
    from Cons.IH[OF sinv_act[OF Cons.prems(1)] act_keeps_nan_key[OF Cons.prems] this]
    show ?case by (simp del: act.simps)
  qed
  from this[of s] assms show ?thesis by (simp add: sinv_run run_nan run_append)
qed

text \<open>
  \<^bold>\<open>C5\<close>, the registry and the pending loads. With a key that is not equal to itself the
  registry does not go back to empty. The key 0 stands for such a key; a call on that key
  alone registers it, invokes its loader, completes the entry and returns the empty mapping
  and no error, and no other call was started. After that the entry is completed and its
  key is still in the registry: \<^verbatim>\<open>delete(g.m, e.key)\<close> has removed nothing. So the key is
  present though no load is pending for it, and the registry is not empty when the only
  call has returned. The same holds of \<open>Do\<close> on the idle group.
\<close>

theorem C5_nan_key_left_in_registry:
  "length (calls (run nan0 [] sched_nan)) = 1 \<and>
   pc (calls (run nan0 [] sched_nan) ! 0) = Returned (Inr Map.empty) \<and>
   keys (calls (run nan0 [] sched_nan) ! 0) = [0] \<and>
   wg (objs (grp (run nan0 [] sched_nan)) ! 0) = 0 \<and>
   m (grp (run nan0 [] sched_nan)) 0 = Some 0 \<and>
   m (grp (run nan0 [] sched_nan)) \<noteq> Map.empty \<and>
   fst (Do [] (grp (init nan0)) [0] ld_ac) = Returns (Inr Map.empty) \<and>
   m (snd (snd (Do [] (grp (init nan0)) [0] ld_ac))) 0 = Some 0"
proof -
  have "m (grp (run nan0 [] sched_nan)) 0 \<noteq> Map.empty 0" by (simp add: run_nan_m)
  then have "m (grp (run nan0 [] sched_nan)) \<noteq> Map.empty" by metis
  moreover have "fst (Do [] (grp (init nan0)) [0] ld_ac) = Returns (Inr Map.empty)"
    by (simp add: Do_def doLoad_def nan0_def evals ld_ac_def)
  moreover have "m (snd (snd (Do [] (grp (init nan0)) [0] ld_ac))) 0 = Some 0"
    by (simp add: Do_def doLoad_def nan0_def evals ld_ac_def)
  ultimately show ?thesis by (simp add: run_nan_calls run_nan_objs run_nan_m)
qed





















end
